theory Spec2Isabelle
  imports Main
begin

section \<open>Values and errors\<close>

text \<open>
  Project item names are Python strings. The only other node key the module ever uses is
  the integer \<open>0\<close>, the invisible source node of \<open>calc_exec_order\<close>.
\<close>

datatype node = Str string | Integer int

text \<open>
  The exceptions that can leave the modelled functions: attribute access on \<open>None\<close>
  (a graph that was not found), the errors of networkx, and \<open>list.pop\<close> on an
  empty list.
\<close>

datatype error = AttributeError | NetworkXError | NodeNotFound | IndexError

section \<open>networkx.DiGraph, as far as executioner.py uses it\<close>

text \<open>
  A \<open>DiGraph\<close> keeps its nodes and, per node, its successors in insertion order.
  The model keeps the node list and the edge list, both in insertion order; the
  successors of a node are the targets of its edges in that order.
\<close>

record 'a DiGraph =
  nodes :: "'a list"
  edges :: "('a \<times> 'a) list"

definition empty_graph :: "'a DiGraph" where
  "empty_graph = \<lparr>nodes = [], edges = []\<rparr>"

definition has_node :: "'a DiGraph \<Rightarrow> 'a \<Rightarrow> bool" where
  "has_node g n = (n \<in> set (nodes g))"

definition has_edge :: "'a DiGraph \<Rightarrow> 'a \<Rightarrow> 'a \<Rightarrow> bool" where
  "has_edge g u v = ((u, v) \<in> set (edges g))"

definition add_node :: "'a DiGraph \<Rightarrow> 'a \<Rightarrow> 'a DiGraph" where
  "add_node g n = (if n \<in> set (nodes g) then g else g\<lparr>nodes := nodes g @ [n]\<rparr>)"

definition add_edge :: "'a DiGraph \<Rightarrow> 'a \<Rightarrow> 'a \<Rightarrow> 'a DiGraph" where
  "add_edge g u v =
     (let g1 = add_node (add_node g u) v
      in if (u, v) \<in> set (edges g1) then g1 else g1\<lparr>edges := edges g1 @ [(u, v)]\<rparr>)"

fun add_edges_from :: "'a DiGraph \<Rightarrow> ('a \<times> 'a) list \<Rightarrow> 'a DiGraph" where
  "add_edges_from g [] = g"
| "add_edges_from g (e # es) = add_edges_from (add_edge g (fst e) (snd e)) es"

text \<open>\<open>remove_edge\<close> and \<open>remove_node\<close> raise \<open>NetworkXError\<close> on what is not there.\<close>

definition remove_edge :: "'a DiGraph \<Rightarrow> 'a \<Rightarrow> 'a \<Rightarrow> error + 'a DiGraph" where
  "remove_edge g u v =
     (if (u, v) \<in> set (edges g) then Inr (g\<lparr>edges := removeAll (u, v) (edges g)\<rparr>)
      else Inl NetworkXError)"

definition drop_node :: "'a DiGraph \<Rightarrow> 'a \<Rightarrow> 'a DiGraph" where
  "drop_node g n =
     \<lparr>nodes = removeAll n (nodes g),
      edges = filter (\<lambda>e. fst e \<noteq> n \<and> snd e \<noteq> n) (edges g)\<rparr>"

definition remove_node :: "'a DiGraph \<Rightarrow> 'a \<Rightarrow> error + 'a DiGraph" where
  "remove_node g n = (if n \<in> set (nodes g) then Inr (drop_node g n) else Inl NetworkXError)"

text \<open>\<open>remove_edges_from\<close> and \<open>remove_nodes_from\<close> skip what is not there.\<close>

definition remove_edges_from :: "'a DiGraph \<Rightarrow> ('a \<times> 'a) list \<Rightarrow> 'a DiGraph" where
  "remove_edges_from g es = g\<lparr>edges := filter (\<lambda>e. e \<notin> set es) (edges g)\<rparr>"

fun remove_nodes_from :: "'a DiGraph \<Rightarrow> 'a list \<Rightarrow> 'a DiGraph" where
  "remove_nodes_from g [] = g"
| "remove_nodes_from g (n # ns) = remove_nodes_from (drop_node g n) ns"

definition in_degree :: "'a DiGraph \<Rightarrow> 'a \<Rightarrow> nat" where
  "in_degree g n = length (filter (\<lambda>e. snd e = n) (edges g))"

definition out_degree :: "'a DiGraph \<Rightarrow> 'a \<Rightarrow> nat" where
  "out_degree g n = length (filter (\<lambda>e. fst e = n) (edges g))"

text \<open>A self-loop is an in-edge and an out-edge: it adds 2 to the degree.\<close>

definition degree :: "'a DiGraph \<Rightarrow> 'a \<Rightarrow> nat" where
  "degree g n = in_degree g n + out_degree g n"

definition is_isolate :: "'a DiGraph \<Rightarrow> 'a \<Rightarrow> bool" where
  "is_isolate g n = (degree g n = 0)"

text \<open>\<open>nx.edges(G, nbunch)\<close>: the out-edges of the nodes of \<open>nbunch\<close>.\<close>

definition edges_nbunch :: "'a DiGraph \<Rightarrow> 'a list \<Rightarrow> ('a \<times> 'a) list" where
  "edges_nbunch g ns = concat (map (\<lambda>n. filter (\<lambda>e. fst e = n) (edges g)) ns)"

text \<open>
  \<open>nx.union(G, H)\<close> raises when the node sets meet; otherwise the new graph has the nodes
  and edges of \<open>G\<close>, then those of \<open>H\<close>.
\<close>

definition union_graph :: "'a DiGraph \<Rightarrow> 'a DiGraph \<Rightarrow> error + 'a DiGraph" where
  "union_graph g h =
     (if filter (\<lambda>n. n \<in> set (nodes h)) (nodes g) = []
      then Inr \<lparr>nodes = nodes g @ nodes h, edges = edges g @ edges h\<rparr>
      else Inl NetworkXError)"

subsection \<open>Reachability\<close>

text \<open>
  \<open>nx.shortest_path_length(G, source)\<close> explores the graph level by level until a level
  finds nothing new; its keys are the nodes reached, the source among them.
\<close>

function bfs_levels :: "('a \<times> 'a) list \<Rightarrow> 'a list \<Rightarrow> 'a list \<Rightarrow> 'a list" where
  "bfs_levels es seen level =
     (let nxt = remdups (map snd
                  (filter (\<lambda>e. fst e \<in> set level \<and> snd e \<notin> set seen) es))
      in if nxt = [] then seen else bfs_levels es (seen @ nxt) nxt)"
  by pat_completeness auto
termination
proof (relation "measure (\<lambda>(es, seen, level). card (snd ` set es - set seen))")
  show "wf (measure (\<lambda>(es, seen, level). card (snd ` set es - set seen)))"
    by simp
next
  fix es :: "('a \<times> 'a) list" and seen level nxt :: "'a list"
  assume nxt: "nxt = remdups (map snd
                  (filter (\<lambda>e. fst e \<in> set level \<and> snd e \<notin> set seen) es))"
    and ne: "nxt \<noteq> []"
  from ne obtain v where v: "v \<in> set nxt"
    by (cases nxt) auto
  have sub: "set nxt \<subseteq> snd ` set es - set seen"
    unfolding nxt by auto
  have "snd ` set es - set (seen @ nxt) \<subset> snd ` set es - set seen"
    using v sub by auto
  then have "card (snd ` set es - set (seen @ nxt)) < card (snd ` set es - set seen)"
    by (intro psubset_card_mono) auto
  then show "((es, seen @ nxt, nxt), (es, seen, level))
      \<in> measure (\<lambda>(es, seen, level). card (snd ` set es - set seen))"
    by simp
qed

definition reachable :: "'a DiGraph \<Rightarrow> 'a \<Rightarrow> 'a list" where
  "reachable g s = bfs_levels (edges g) [s] [s]"

definition reverse_edges :: "('a \<times> 'a) list \<Rightarrow> ('a \<times> 'a) list" where
  "reverse_edges es = map (\<lambda>e. (snd e, fst e)) es"

text \<open>\<open>nx.descendants\<close> and \<open>nx.ancestors\<close> raise for a node that is not in the graph.\<close>

definition descendants :: "'a DiGraph \<Rightarrow> 'a \<Rightarrow> error + 'a list" where
  "descendants g s =
     (if has_node g s then Inr (removeAll s (bfs_levels (edges g) [s] [s]))
      else Inl NetworkXError)"

definition ancestors :: "'a DiGraph \<Rightarrow> 'a \<Rightarrow> error + 'a list" where
  "ancestors g s =
     (if has_node g s then Inr (removeAll s (bfs_levels (reverse_edges (edges g)) [s] [s]))
      else Inl NetworkXError)"

definition has_path :: "'a DiGraph \<Rightarrow> 'a \<Rightarrow> 'a \<Rightarrow> error + bool" where
  "has_path g s t =
     (if has_node g s \<and> has_node g t then Inr (t \<in> set (reachable g s))
      else Inl NodeNotFound)"

section \<open>DirectedGraphHandler\<close>

text \<open>
  The handler's state is the list \<open>_dags\<close> of graph objects. A graph object is known by
  its position in the list: \<open>dag_with_node\<close> returns the first graph that has the node,
  and two references are the same object when the positions are equal.
\<close>

type_synonym 'a dags = "'a DiGraph list"

fun first_index :: "('b \<Rightarrow> bool) \<Rightarrow> 'b list \<Rightarrow> nat option" where
  "first_index p [] = None"
| "first_index p (x # xs) =
     (if p x then Some 0 else map_option Suc (first_index p xs))"

definition dag_with_node :: "'a dags \<Rightarrow> 'a \<Rightarrow> nat option" where
  "dag_with_node ds node_name = first_index (\<lambda>dag. has_node dag node_name) ds"

definition dag_with_edge :: "'a dags \<Rightarrow> 'a \<Rightarrow> 'a \<Rightarrow> nat option" where
  "dag_with_edge ds src_node dst_node = first_index (\<lambda>dag. has_edge dag src_node dst_node) ds"

definition add_dag :: "'a dags \<Rightarrow> 'a DiGraph \<Rightarrow> 'a dags" where
  "add_dag ds dag = ds @ [dag]"

definition remove_dag :: "'a dags \<Rightarrow> nat \<Rightarrow> 'a dags" where
  "remove_dag ds i = take i ds @ drop (Suc i) ds"

definition add_dag_node :: "'a dags \<Rightarrow> 'a \<Rightarrow> 'a dags" where
  "add_dag_node ds node_name = ds @ [add_node empty_graph node_name]"

text \<open>
  \<open>add_graph_edge\<close>: a self-loop or an edge inside one graph is added in place; otherwise
  the union of the two graphs, with the new edge, is appended and the two graphs are
  removed. A graph that was not found is \<open>None\<close>, and using it raises.
\<close>

definition add_graph_edge :: "'a dags \<Rightarrow> 'a \<Rightarrow> 'a \<Rightarrow> error + 'a dags" where
  "add_graph_edge ds src_node dst_node =
     (let src_graph = dag_with_node ds src_node;
          dst_graph = dag_with_node ds dst_node
      in if src_node = dst_node then
           (case src_graph of
              None \<Rightarrow> Inl AttributeError
            | Some i \<Rightarrow> Inr (ds[i := add_edge (ds ! i) src_node dst_node]))
         else if src_graph = dst_graph then
           (case src_graph of
              None \<Rightarrow> Inl AttributeError
            | Some i \<Rightarrow> Inr (ds[i := add_edge (ds ! i) src_node dst_node]))
         else
           (case src_graph of
              None \<Rightarrow> Inl AttributeError
            | Some i \<Rightarrow>
               (case dst_graph of
                  None \<Rightarrow> Inl AttributeError
                | Some j \<Rightarrow>
                   (case union_graph (ds ! i) (ds ! j) of
                      Inl e \<Rightarrow> Inl e
                    | Inr union_dag \<Rightarrow>
                        Inr (remove_dag
                              (remove_dag (add_dag ds (add_edge union_dag src_node dst_node)) i)
                              (if i < j then j - 1 else j))))))"

text \<open>
  \<open>node_is_isolated\<close> looks the node's graph up in the handler's list. With the default
  \<open>allow_self_loop = False\<close> it is \<open>nx.is_isolate\<close>: a self-loop counts as a connection.
\<close>

definition node_is_isolated :: "'a dags \<Rightarrow> 'a \<Rightarrow> bool \<Rightarrow> error + bool" where
  "node_is_isolated ds n allow_self_loop =
     (case dag_with_node ds n of
        None \<Rightarrow> Inl AttributeError
      | Some i \<Rightarrow>
          (let g = ds ! i
           in if \<not> allow_self_loop then Inr (is_isolate g n)
              else if \<not> has_edge g n n then Inr (is_isolate g n)
              else Inr (int (degree g n) - 2 = 0)))"

text \<open>
  \<open>nodes_connected\<close>: for each ancestor and then each descendant of \<open>a\<close>, is there a
  directed path from it to \<open>b\<close> or from \<open>b\<close> to it; the first hit returns \<open>True\<close>.
\<close>

fun probe_paths :: "'a DiGraph \<Rightarrow> 'a \<Rightarrow> 'a list \<Rightarrow> error + bool" where
  "probe_paths dag b [] = Inr False"
| "probe_paths dag b (x # xs) =
     (case has_path dag x b of
        Inl e \<Rightarrow> Inl e
      | Inr True \<Rightarrow> Inr True
      | Inr False \<Rightarrow>
          (case has_path dag b x of
             Inl e \<Rightarrow> Inl e
           | Inr True \<Rightarrow> Inr True
           | Inr False \<Rightarrow> probe_paths dag b xs))"

definition nodes_connected :: "'a DiGraph \<Rightarrow> 'a \<Rightarrow> 'a \<Rightarrow> error + bool" where
  "nodes_connected dag a b =
     (case ancestors dag a of
        Inl e \<Rightarrow> Inl e
      | Inr src_anc \<Rightarrow>
          (case descendants dag a of
             Inl e \<Rightarrow> Inl e
           | Inr src_des \<Rightarrow>
               (case probe_paths dag b src_anc of
                  Inl e \<Rightarrow> Inl e
                | Inr True \<Rightarrow> Inr True
                | Inr False \<Rightarrow> probe_paths dag b src_des)))"

text \<open>
  The graph that \<open>remove_graph_edge\<close> builds around a node when it splits a graph: the
  out-edges of the node's descendants, of its ancestors and of the node itself, added to
  a new graph.
\<close>

definition closure_graph :: "'a DiGraph \<Rightarrow> 'a \<Rightarrow> error + 'a DiGraph" where
  "closure_graph dag n =
     (case descendants dag n of
        Inl e \<Rightarrow> Inl e
      | Inr des \<Rightarrow>
          (case ancestors dag n of
             Inl e \<Rightarrow> Inl e
           | Inr anc \<Rightarrow>
               Inr (add_edges_from
                     (add_edges_from
                       (add_edges_from empty_graph (edges_nbunch dag des))
                       (edges_nbunch dag anc))
                     (edges_nbunch dag [n]))))"

text \<open>
  The isolation branch of \<open>remove_graph_edge\<close>: the node leaves the graph at position
  \<open>i\<close> and a new graph holding only the node is appended.
\<close>

definition split_off :: "'a dags \<Rightarrow> nat \<Rightarrow> 'a \<Rightarrow> error + 'a dags" where
  "split_off ds i n =
     (case remove_node (ds ! i) n of
        Inl e \<Rightarrow> Inl e
      | Inr dag \<Rightarrow> Inr (add_dag (ds[i := dag]) (add_node empty_graph n)))"

definition remove_graph_edge :: "'a dags \<Rightarrow> 'a \<Rightarrow> 'a \<Rightarrow> error + 'a dags" where
  "remove_graph_edge ds src_node dst_node =
     (case dag_with_edge ds src_node dst_node of
        None \<Rightarrow> Inl AttributeError
      | Some i \<Rightarrow>
          (case remove_edge (ds ! i) src_node dst_node of
             Inl e \<Rightarrow> Inl e
           | Inr dag \<Rightarrow>
               (let ds1 = ds[i := dag]
                in if src_node = dst_node then Inr ds1
                   else
                     (case node_is_isolated ds1 src_node False of
                        Inl e \<Rightarrow> Inl e
                      | Inr True \<Rightarrow> split_off ds1 i src_node
                      | Inr False \<Rightarrow>
                          (case node_is_isolated ds1 dst_node False of
                             Inl e \<Rightarrow> Inl e
                           | Inr True \<Rightarrow> split_off ds1 i dst_node
                           | Inr False \<Rightarrow>
                               (case nodes_connected dag src_node dst_node of
                                  Inl e \<Rightarrow> Inl e
                                | Inr True \<Rightarrow> Inr ds1
                                | Inr False \<Rightarrow>
                                    (case closure_graph dag src_node of
                                       Inl e \<Rightarrow> Inl e
                                     | Inr descendant_graph \<Rightarrow>
                                         (case closure_graph dag dst_node of
                                            Inl e \<Rightarrow> Inl e
                                          | Inr ancestor_graph \<Rightarrow>
                                              Inr (add_dag
                                                    (add_dag (remove_dag ds1 i) descendant_graph)
                                                    ancestor_graph)))))))))"

text \<open>
  \<open>remove_node_from_graph\<close>: the loop over the remaining nodes appends a graph for every
  node that is isolated (a lone self-loop allowed, and carried over) and collects the
  node; the collected nodes leave the graph after the loop.
\<close>

fun sweep_isolated :: "'a dags \<Rightarrow> nat \<Rightarrow> 'a list \<Rightarrow> 'a list \<Rightarrow> error + ('a dags \<times> 'a list)" where
  "sweep_isolated ds i [] nodes_to_remove = Inr (ds, nodes_to_remove)"
| "sweep_isolated ds i (n # ns) nodes_to_remove =
     (case node_is_isolated ds n True of
        Inl e \<Rightarrow> Inl e
      | Inr True \<Rightarrow>
          (let h = add_node empty_graph n;
               h1 = (if has_edge (ds ! i) n n then add_edge h n n else h)
           in sweep_isolated (add_dag ds h1) i ns (nodes_to_remove @ [n]))
      | Inr False \<Rightarrow> sweep_isolated ds i ns nodes_to_remove)"

definition remove_node_from_graph :: "'a dags \<Rightarrow> 'a \<Rightarrow> error + 'a dags" where
  "remove_node_from_graph ds node_name =
     (case dag_with_node ds node_name of
        None \<Rightarrow> Inl AttributeError
      | Some i \<Rightarrow>
          (let g = ds ! i;
               edges_to_remove =
                 filter (\<lambda>e. node_name = fst e \<or> node_name = snd e) (edges g);
               g1 = remove_edges_from g edges_to_remove
           in case remove_node g1 node_name of
                Inl e \<Rightarrow> Inl e
              | Inr g2 \<Rightarrow>
                  (case sweep_isolated (ds[i := g2]) i (nodes g2) [] of
                     Inl e \<Rightarrow> Inl e
                   | Inr (ds1, nodes_to_remove) \<Rightarrow>
                       (let g3 = remove_nodes_from g2 nodes_to_remove;
                            ds2 = ds1[i := g3]
                        in if nodes g3 = [] then Inr (remove_dag ds2 i) else Inr ds2))))"

subsection \<open>Execution order\<close>

text \<open>
  \<open>nx.is_directed_acyclic_graph\<close> tries a topological sort: it takes nodes without
  incoming edges away, one at a time, together with their out-edges; the graph is acyclic
  when no node is left.
\<close>

function topological_sort_feasible :: "'a list \<Rightarrow> ('a \<times> 'a) list \<Rightarrow> bool" where
  "topological_sort_feasible ns es =
     (case filter (\<lambda>n. filter (\<lambda>e. snd e = n) es = []) ns of
        [] \<Rightarrow> ns = []
      | z # zs \<Rightarrow> topological_sort_feasible (removeAll z ns) (filter (\<lambda>e. fst e \<noteq> z) es))"
  by pat_completeness auto
termination
proof (relation "measure (\<lambda>(ns, es). length ns)")
  show "wf (measure (\<lambda>(ns, es). length ns))"
    by simp
next
  fix ns :: "'a list" and es :: "('a \<times> 'a) list" and z zs
  assume "filter (\<lambda>n. filter (\<lambda>e. snd e = n) es = []) ns = z # zs"
  then have "z \<in> set (filter (\<lambda>n. filter (\<lambda>e. snd e = n) es = []) ns)"
    by simp
  then have "z \<in> set ns"
    by simp
  then have "length (removeAll z ns) < length ns"
    by (rule length_removeAll_less)
  then show "((removeAll z ns, filter (\<lambda>e. fst e \<noteq> z) es), (ns, es))
      \<in> measure (\<lambda>(ns, es). length ns)"
    by simp
qed

definition is_directed_acyclic_graph :: "'a DiGraph \<Rightarrow> bool" where
  "is_directed_acyclic_graph g = topological_sort_feasible (nodes g) (edges g)"

definition source_nodes :: "'a DiGraph \<Rightarrow> 'a list" where
  "source_nodes g = filter (\<lambda>n. in_degree g n = 0) (nodes g)"

text \<open>
  \<open>nx.bfs_edges(G, source)\<close>: the tree edges of a breadth-first search, in the order
  found. The queue holds the nodes whose successors are still to be read; a successor
  not visited yet gives an edge, is marked and joins the queue.
\<close>

function bfs_edges_loop :: "('a \<times> 'a) list \<Rightarrow> 'a list \<Rightarrow> 'a list \<Rightarrow> ('a \<times> 'a) list" where
  "bfs_edges_loop es [] visited = []"
| "bfs_edges_loop es (parent # queue) visited =
     (let children = filter (\<lambda>c. c \<notin> set visited) (map snd (filter (\<lambda>e. fst e = parent) es))
      in map (\<lambda>c. (parent, c)) children
           @ bfs_edges_loop es (queue @ children) (visited @ children))"
  by pat_completeness auto
termination
proof (relation "measures [\<lambda>(es, queue, visited). card (snd ` set es - set visited),
                           \<lambda>(es, queue, visited). length queue]")
  show "wf (measures [\<lambda>(es, queue, visited). card (snd ` set es - set visited),
                      \<lambda>(es, queue, visited). length queue])"
    by simp
next
  fix es :: "('a \<times> 'a) list" and parent and queue visited children :: "'a list"
  assume ch: "children =
      filter (\<lambda>c. c \<notin> set visited) (map snd (filter (\<lambda>e. fst e = parent) es))"
  have sub: "set children \<subseteq> snd ` set es - set visited"
    unfolding ch by auto
  show "((es, queue @ children, visited @ children), (es, parent # queue, visited))
      \<in> measures [\<lambda>(es, queue, visited). card (snd ` set es - set visited),
                   \<lambda>(es, queue, visited). length queue]"
  proof (cases "children = []")
    case True
    then show ?thesis by simp
  next
    case False
    then obtain v where v: "v \<in> set children"
      by (cases children) auto
    have "snd ` set es - set (visited @ children) \<subset> snd ` set es - set visited"
      using v sub by auto
    then have "card (snd ` set es - set (visited @ children))
        < card (snd ` set es - set visited)"
      by (intro psubset_card_mono) auto
    then show ?thesis by simp
  qed
qed

definition bfs_edges :: "'a DiGraph \<Rightarrow> 'a \<Rightarrow> error + ('a \<times> 'a) list" where
  "bfs_edges g source =
     (if has_node g source then Inr (bfs_edges_loop (edges g) [source] [source])
      else Inl NetworkXError)"

text \<open>The two loops of \<open>calc_exec_order\<close> over the sources.\<close>

fun add_invisible_edges :: "node DiGraph \<Rightarrow> node \<Rightarrow> node list \<Rightarrow> node DiGraph" where
  "add_invisible_edges g invisible_src_node [] = g"
| "add_invisible_edges g invisible_src_node (src # sources) =
     add_invisible_edges (add_edge g invisible_src_node src) invisible_src_node sources"

fun remove_invisible_edges :: "node DiGraph \<Rightarrow> node \<Rightarrow> node list \<Rightarrow> error + node DiGraph" where
  "remove_invisible_edges g invisible_src_node [] = Inr g"
| "remove_invisible_edges g invisible_src_node (src # sources) =
     (case remove_edge g invisible_src_node src of
        Inl e \<Rightarrow> Inl e
      | Inr g1 \<Rightarrow> remove_invisible_edges g1 invisible_src_node sources)"

text \<open>
  \<open>calc_exec_order\<close> returns the order; the graph is an object the function changes in
  place, so the model returns it too.
\<close>

definition calc_exec_order :: "node DiGraph \<Rightarrow> error + (node list \<times> node DiGraph)" where
  "calc_exec_order g =
     (if \<not> is_directed_acyclic_graph g then Inr ([], g)
      else
        (case source_nodes g of
           [] \<Rightarrow> Inr ([], g)
         | [source] \<Rightarrow>
             (case bfs_edges g source of
                Inl e \<Rightarrow> Inl e
              | Inr edges_to_execute \<Rightarrow> Inr (source # map snd edges_to_execute, g))
         | sources \<Rightarrow>
             (let invisible_src_node = Integer 0;
                  g1 = add_invisible_edges (add_node g invisible_src_node)
                         invisible_src_node sources
              in case bfs_edges g1 invisible_src_node of
                   Inl e \<Rightarrow> Inl e
                 | Inr edges_to_execute \<Rightarrow>
                     (case remove_invisible_edges g1 invisible_src_node sources of
                        Inl e \<Rightarrow> Inl e
                      | Inr g2 \<Rightarrow>
                          (case remove_node g2 invisible_src_node of
                             Inl e \<Rightarrow> Inl e
                           | Inr g3 \<Rightarrow> Inr (map snd edges_to_execute, g3))))))"

section \<open>ExecutionInstance\<close>

text \<open>
  The fields of the class, and what the instance does to the outside, kept as logs: the
  items whose \<open>execute()\<close> was called, the items whose \<open>stop_execution()\<close> was called,
  the codes emitted on \<open>graph_execution_finished_signal\<close> (0 finished, -1 failed, -2
  stopped by the user) and the messages sent to the toolbox, oldest first. The payloads
  of the data interfaces (\<open>di_data\<close>) are left out.
\<close>

record ExecutionInstance =
  execution_list :: "string list"
  running_item :: "string option"
  dc_refs :: "string list"
  dc_files :: "string list"
  ds_refs :: "string \<rightharpoonup> string list"
  tool_output_files :: "string list"
  slot_connected :: bool
  executed :: "string list"
  stop_requests :: "string list"
  graph_execution_finished :: "int list"
  msgs :: "string list"

definition ExecutionInstance_init :: "string list \<Rightarrow> ExecutionInstance" where
  "ExecutionInstance_init execution_list0 =
     \<lparr>execution_list = execution_list0, running_item = None, dc_refs = [], dc_files = [],
      ds_refs = Map.empty, tool_output_files = [], slot_connected = False, executed = [],
      stop_requests = [], graph_execution_finished = [], msgs = []\<rparr>"

text \<open>
  \<open>execute_project_item\<close> connects the slot and calls \<open>execute()\<close> of the running item.
  Both callers have just set \<open>running_item\<close>.
\<close>

definition execute_project_item :: "ExecutionInstance \<Rightarrow> ExecutionInstance" where
  "execute_project_item s =
     (case running_item s of
        None \<Rightarrow> s\<lparr>slot_connected := True\<rparr>
      | Some item \<Rightarrow> s\<lparr>slot_connected := True, executed := executed s @ [item]\<rparr>)"

text \<open>\<open>list.pop(0)\<close> raises \<open>IndexError\<close> on an empty list; \<open>start_execution\<close> does not catch it.\<close>

definition start_execution :: "ExecutionInstance \<Rightarrow> error + ExecutionInstance" where
  "start_execution s =
     (case execution_list s of
        [] \<Rightarrow> Inl IndexError
      | item # rest \<Rightarrow>
          Inr (execute_project_item (s\<lparr>running_item := Some item, execution_list := rest\<rparr>)))"

definition emit_graph_execution_finished :: "ExecutionInstance \<Rightarrow> int \<Rightarrow> ExecutionInstance" where
  "emit_graph_execution_finished s code =
     s\<lparr>graph_execution_finished := graph_execution_finished s @ [code]\<rparr>"

text \<open>\<open>item_execution_finished\<close> catches the \<open>IndexError\<close> of the empty list.\<close>

definition item_execution_finished :: "ExecutionInstance \<Rightarrow> int \<Rightarrow> ExecutionInstance" where
  "item_execution_finished s item_finish_state =
     (let s1 = s\<lparr>slot_connected := False\<rparr>
      in if item_finish_state = - 1 then emit_graph_execution_finished s1 (- 1)
         else if item_finish_state = - 2 then emit_graph_execution_finished s1 (- 2)
         else
           (case execution_list s1 of
              [] \<Rightarrow> emit_graph_execution_finished s1 0
            | item # rest \<Rightarrow>
                execute_project_item (s1\<lparr>running_item := Some item, execution_list := rest\<rparr>)))"

text \<open>\<open>not self.running_item\<close> holds for \<open>None\<close> and for the empty string.\<close>

definition stop :: "ExecutionInstance \<Rightarrow> ExecutionInstance" where
  "stop s =
     (case running_item s of
        None \<Rightarrow>
          emit_graph_execution_finished (s\<lparr>msgs := msgs s @ [''No running item'']\<rparr>) (- 2)
      | Some item \<Rightarrow>
          if item = [] then
            emit_graph_execution_finished (s\<lparr>msgs := msgs s @ [''No running item'']\<rparr>) (- 2)
          else s\<lparr>stop_requests := stop_requests s @ [item]\<rparr>)"

subsection \<open>Resources\<close>

definition add_ds_ref :: "ExecutionInstance \<Rightarrow> string \<Rightarrow> string \<Rightarrow> ExecutionInstance" where
  "add_ds_ref s dialect ref =
     (case ds_refs s dialect of
        Some refs \<Rightarrow> s\<lparr>ds_refs := (ds_refs s)(dialect \<mapsto> refs @ [ref])\<rparr>
      | None \<Rightarrow> s\<lparr>ds_refs := (ds_refs s)(dialect \<mapsto> [ref])\<rparr>)"

definition append_dc_refs :: "ExecutionInstance \<Rightarrow> string list \<Rightarrow> ExecutionInstance" where
  "append_dc_refs s refs = s\<lparr>dc_refs := dc_refs s @ refs\<rparr>"

definition append_dc_files :: "ExecutionInstance \<Rightarrow> string list \<Rightarrow> ExecutionInstance" where
  "append_dc_files s files = s\<lparr>dc_files := dc_files s @ files\<rparr>"

definition append_tool_output_file :: "ExecutionInstance \<Rightarrow> string \<Rightarrow> ExecutionInstance" where
  "append_tool_output_file s filepath = s\<lparr>tool_output_files := tool_output_files s @ [filepath]\<rparr>"

text \<open>
  \<open>os.path.split(p)[1]\<close> on POSIX: what follows the last slash.
\<close>

definition path_tail :: "string \<Rightarrow> string" where
  "path_tail p = rev (takeWhile (\<lambda>c. c \<noteq> CHR ''/'') (rev p))"

text \<open>One loop of \<open>find_file\<close>: the first entry of a list whose file name is the one sought.\<close>

fun first_named :: "string \<Rightarrow> string list \<Rightarrow> string option" where
  "first_named filename [] = None"
| "first_named filename (r # refs) =
     (if path_tail r = filename then Some r else first_named filename refs)"

text \<open>A dialect that is not a key raises \<open>KeyError\<close>, which \<open>find_file\<close> passes over.\<close>

definition refs_of_dialect :: "ExecutionInstance \<Rightarrow> string \<Rightarrow> string list" where
  "refs_of_dialect s dialect = (case ds_refs s dialect of None \<Rightarrow> [] | Some refs \<Rightarrow> refs)"

fun first_some :: "string option list \<Rightarrow> string option" where
  "first_some [] = None"
| "first_some (None # rs) = first_some rs"
| "first_some (Some r # rs) = Some r"

definition find_file :: "ExecutionInstance \<Rightarrow> string \<Rightarrow> string option" where
  "find_file s filename =
     first_some
       [first_named filename (refs_of_dialect s ''sqlite''),
        first_named filename (refs_of_dialect s ''mysql''),
        first_named filename (refs_of_dialect s ''mssql''),
        first_named filename (refs_of_dialect s ''postgresql''),
        first_named filename (refs_of_dialect s ''oracle''),
        first_named filename (dc_refs s),
        first_named filename (dc_files s),
        first_named filename (tool_output_files s)]"

text \<open>
  \<open>fnmatch.filter(names, pat)\<close> keeps, in their order, the names that the matcher of the
  standard library accepts for the pattern. The matcher is not part of this module: the
  functions below take it as the parameter \<open>matches\<close> (name first, pattern second), so
  what is proved of them holds whatever the matcher does with any pattern.
\<close>

definition fnmatch_filter ::
  "(string \<Rightarrow> string \<Rightarrow> bool) \<Rightarrow> string list \<Rightarrow> string \<Rightarrow> string list" where
  "fnmatch_filter matches names pat = filter (\<lambda>name. matches name pat) names"

definition find_optional_files ::
  "(string \<Rightarrow> string \<Rightarrow> bool) \<Rightarrow> ExecutionInstance \<Rightarrow> string \<Rightarrow> string list" where
  "find_optional_files matches s pattern =
     (if CHR ''*'' \<in> set pattern \<or> CHR ''?'' \<in> set pattern then
        fnmatch_filter matches (refs_of_dialect s ''sqlite'') pattern
          @ fnmatch_filter matches (dc_refs s) pattern
          @ fnmatch_filter matches (dc_files s) pattern
          @ fnmatch_filter matches (tool_output_files s) pattern
      else
        (case find_file s pattern of None \<Rightarrow> [] | Some match \<Rightarrow> [match]))"

section \<open>Notions of the specification\<close>

text \<open>
  Two nodes are connected when edge direction is ignored if a chain of edges, each taken
  in either direction, leads from one to the other.
\<close>

definition weakly_linked :: "'a DiGraph \<Rightarrow> 'a \<Rightarrow> 'a \<Rightarrow> bool" where
  "weakly_linked g a b = ((a, b) \<in> (set (edges g) \<union> (set (edges g))\<inverse>)\<^sup>*)"

text \<open>
  What every \<open>DiGraph\<close> object satisfies, being a dictionary of dictionaries: no node and
  no edge is held twice, and the ends of every edge are nodes.
\<close>

definition well_formed :: "'a DiGraph \<Rightarrow> bool" where
  "well_formed g =
     (distinct (nodes g) \<and> distinct (edges g)
      \<and> list_all (\<lambda>e. fst e \<in> set (nodes g) \<and> snd e \<in> set (nodes g)) (edges g))"

text \<open>
  A graph is weakly connected when any two of its nodes are connected with edge direction
  ignored.
\<close>

definition weakly_connected :: "'a DiGraph \<Rightarrow> bool" where
  "weakly_connected g = (\<forall>a \<in> set (nodes g). \<forall>b \<in> set (nodes g). weakly_linked g a b)"

text \<open>
  Isolation with a lone self-loop allowed: the degree, less the 2 of a self-loop, is 0.
\<close>

definition isolated_allowing_self_loop :: "'a DiGraph \<Rightarrow> 'a \<Rightarrow> bool" where
  "isolated_allowing_self_loop g n = (degree g n = (if has_edge g n n then 2 else 0))"

text \<open>No graph of the store but the one at position \<open>i\<close> holds the node.\<close>

definition only_graph_with :: "'a dags \<Rightarrow> nat \<Rightarrow> 'a \<Rightarrow> bool" where
  "only_graph_with ds i n = (\<forall>j < length ds. has_node (ds ! j) n \<longrightarrow> j = i)"

text \<open>The graphs of the store that hold a node.\<close>

definition graphs_with_node :: "'a dags \<Rightarrow> 'a \<Rightarrow> 'a DiGraph list" where
  "graphs_with_node ds n = filter (\<lambda>g. has_node g n) ds"

text \<open>
  The edges that take part in a cycle: the self-loops, and the edges whose target leads
  back to their source (both ends in one strongly connected component).
\<close>

definition edges_in_cycles :: "'a DiGraph \<Rightarrow> ('a \<times> 'a) list" where
  "edges_in_cycles g = filter (\<lambda>e. fst e \<in> set (reachable g (snd e))) (edges g)"

text \<open>The four mutations of the store, and a sequence of them run from left to right.\<close>

datatype 'a mutation =
  Add_node 'a | Add_edge 'a 'a | Remove_edge 'a 'a | Remove_node 'a

fun mutate :: "'a dags \<Rightarrow> 'a mutation \<Rightarrow> error + 'a dags" where
  "mutate ds (Add_node n) = Inr (add_dag_node ds n)"
| "mutate ds (Add_edge u v) = add_graph_edge ds u v"
| "mutate ds (Remove_edge u v) = remove_graph_edge ds u v"
| "mutate ds (Remove_node n) = remove_node_from_graph ds n"

fun mutate_all :: "'a dags \<Rightarrow> 'a mutation list \<Rightarrow> error + 'a dags" where
  "mutate_all ds [] = Inr ds"
| "mutate_all ds (m # ms) =
     (case mutate ds m of Inl e \<Rightarrow> Inl e | Inr ds1 \<Rightarrow> mutate_all ds1 ms)"

section \<open>The store: adding nodes\<close>

text \<open>
  Claim C4, as amended. \<open>add_dag_node\<close> has no check for an existing name: for every
  store and every name it appends one new graph that holds just the name, so a name that
  was already in the store is afterwards in one more graph than before.
\<close>

theorem add_dag_node_always_appends:
  "add_dag_node ds n = ds @ [\<lparr>nodes = [n], edges = []\<rparr>]
   \<and> graphs_with_node (add_dag_node ds n) n
       = graphs_with_node ds n @ [\<lparr>nodes = [n], edges = []\<rparr>]"
  by (simp add: add_dag_node_def graphs_with_node_def has_node_def add_node_def empty_graph_def)

text \<open>
  Claim C4 as stated fails: adding the name \<open>a\<close> to a store that already holds \<open>a\<close>
  changes the store, and \<open>a\<close> is then in two graphs.
\<close>

theorem add_dag_node_existing_name_counterexample:
  "graphs_with_node (add_dag_node [] ''a'') ''a'' \<noteq> []
   \<and> add_dag_node (add_dag_node [] ''a'') ''a'' \<noteq> add_dag_node [] ''a''
   \<and> graphs_with_node (add_dag_node (add_dag_node [] ''a'') ''a'') ''a''
       = [\<lparr>nodes = [''a''], edges = []\<rparr>, \<lparr>nodes = [''a''], edges = []\<rparr>]"
  by (simp add: add_dag_node_def graphs_with_node_def has_node_def add_node_def empty_graph_def)

section \<open>The store: removing edges\<close>

text \<open>
  Claim C1 fails on the code. Five nodes are added and joined by the edges \<open>s \<rightarrow> d\<close>,
  \<open>d \<rightarrow> e\<close>, \<open>s \<rightarrow> c\<close> and \<open>q \<rightarrow> c\<close>; removing \<open>s \<rightarrow> d\<close> splits the graph. The graph built
  around \<open>s\<close> takes the out-edges of the descendants and ancestors of \<open>s\<close> and of \<open>s\<close>
  itself, so the edge \<open>q \<rightarrow> c\<close> is not in it, and the node \<open>q\<close>, which was never removed,
  is in no graph of the store.
\<close>

theorem remove_graph_edge_loses_node:
  "mutate_all []
     [Add_node ''s'', Add_node ''d'', Add_node ''e'', Add_node ''c'', Add_node ''q'',
      Add_edge ''s'' ''d'', Add_edge ''d'' ''e'', Add_edge ''s'' ''c'', Add_edge ''q'' ''c'',
      Remove_edge ''s'' ''d'']
   = Inr [\<lparr>nodes = [''s'', ''c''], edges = [(''s'', ''c'')]\<rparr>,
          \<lparr>nodes = [''d'', ''e''], edges = [(''d'', ''e'')]\<rparr>]
   \<and> graphs_with_node
        [\<lparr>nodes = [''s'', ''c''], edges = [(''s'', ''c'')]\<rparr>,
         \<lparr>nodes = [''d'', ''e''], edges = [(''d'', ''e'')]\<rparr>] ''q'' = []"
  by code_simp

text \<open>
  The same operation can also leave a node in two graphs: with the edges \<open>a \<rightarrow> b\<close>,
  \<open>p \<rightarrow> a\<close>, \<open>p \<rightarrow> c\<close>, \<open>q \<rightarrow> c\<close> and \<open>q \<rightarrow> b\<close>, removing \<open>a \<rightarrow> b\<close> leaves the graph in one
  piece, but \<open>nodes_connected\<close> answers no, the graph is split and \<open>c\<close> ends up on both
  sides.
\<close>

lemma remove_graph_edge_duplicates_node:
  "mutate_all []
     [Add_node ''a'', Add_node ''b'', Add_node ''p'', Add_node ''c'', Add_node ''q'',
      Add_edge ''a'' ''b'', Add_edge ''p'' ''a'', Add_edge ''p'' ''c'', Add_edge ''q'' ''c'',
      Add_edge ''q'' ''b'', Remove_edge ''a'' ''b'']
   = Inr [\<lparr>nodes = [''p'', ''a'', ''c''], edges = [(''p'', ''a''), (''p'', ''c'')]\<rparr>,
          \<lparr>nodes = [''q'', ''c'', ''b''], edges = [(''q'', ''c''), (''q'', ''b'')]\<rparr>]"
  by code_simp

text \<open>
  Claim C2 fails on the code. In the graph with the edges \<open>p \<rightarrow> a\<close>, \<open>p \<rightarrow> c\<close>, \<open>q \<rightarrow> c\<close>
  and \<open>q \<rightarrow> b\<close> the nodes \<open>a\<close> and \<open>b\<close> are connected when direction is ignored (by way
  of \<open>p\<close>, \<open>c\<close> and \<open>q\<close>), but no ancestor or descendant of \<open>a\<close> has a directed path
  to or from \<open>b\<close>, and \<open>nodes_connected\<close> returns \<open>False\<close>.
\<close>

theorem nodes_connected_misses_link:
  "nodes_connected
     \<lparr>nodes = [''q'', ''p'', ''a'', ''b'', ''c''],
      edges = [(''p'', ''a''), (''p'', ''c''), (''q'', ''c''), (''q'', ''b'')]\<rparr> ''a'' ''b''
     = Inr False
   \<and> weakly_linked
       \<lparr>nodes = [''q'', ''p'', ''a'', ''b'', ''c''],
        edges = [(''p'', ''a''), (''p'', ''c''), (''q'', ''c''), (''q'', ''b'')]\<rparr> ''a'' ''b''"
proof
  show "nodes_connected
     \<lparr>nodes = [''q'', ''p'', ''a'', ''b'', ''c''],
      edges = [(''p'', ''a''), (''p'', ''c''), (''q'', ''c''), (''q'', ''b'')]\<rparr> ''a'' ''b''
     = Inr False"
    by code_simp
next
  let ?R = "set [(''p'', ''a''), (''p'', ''c''), (''q'', ''c''), (''q'', ''b'')]
      \<union> (set [(''p'', ''a''), (''p'', ''c''), (''q'', ''c''), (''q'', ''b'')])\<inverse>"
  have 1: "(''a'', ''p'') \<in> ?R" by simp
  have 2: "(''p'', ''c'') \<in> ?R" by simp
  have 3: "(''c'', ''q'') \<in> ?R" by simp
  have 4: "(''q'', ''b'') \<in> ?R" by simp
  have "(''a'', ''b'') \<in> ?R\<^sup>*"
    using 1 2 3 4 by (meson rtrancl.rtrancl_into_rtrancl rtrancl.rtrancl_refl)
  then show "weakly_linked
       \<lparr>nodes = [''q'', ''p'', ''a'', ''b'', ''c''],
        edges = [(''p'', ''a''), (''p'', ''c''), (''q'', ''c''), (''q'', ''b'')]\<rparr> ''a'' ''b''"
    by (simp add: weakly_linked_def)
qed

subsection \<open>Isolated endpoints\<close>

text \<open>
  Reachability stays inside every set of nodes that the edges do not leave.
\<close>

lemma bfs_levels_closed:
  assumes "set seen \<subseteq> S" and "set level \<subseteq> S"
    and "\<And>u v. (u, v) \<in> set es \<Longrightarrow> u \<in> S \<Longrightarrow> v \<in> S"
  shows "set (bfs_levels es seen level) \<subseteq> S"
  using assms
proof (induction es seen level rule: bfs_levels.induct)
  case (1 es seen level)
  let ?nxt = "remdups (map snd (filter (\<lambda>e. fst e \<in> set level \<and> snd e \<notin> set seen) es))"
  show ?case
  proof (cases "?nxt = []")
    case True
    then show ?thesis
      using "1.prems"(1) by (subst bfs_levels.simps) (simp add: Let_def)
  next
    case False
    have nxt: "set ?nxt \<subseteq> S"
      using "1.prems"(2,3) by auto
    have "set (bfs_levels es (seen @ ?nxt) ?nxt) \<subseteq> S"
      using "1.prems"(1) nxt "1.prems"(3) by (intro "1.IH" [OF refl False]) auto
    then show ?thesis
      using False by (subst bfs_levels.simps) (simp add: Let_def)
  qed
qed

lemma bfs_levels_no_out_edges:
  "\<forall>e \<in> set es. fst e = s \<longrightarrow> snd e = s \<Longrightarrow> bfs_levels es [s] [s] = [s]"
proof -
  assume a: "\<forall>e \<in> set es. fst e = s \<longrightarrow> snd e = s"
  have "filter (\<lambda>e. fst e \<in> set [s] \<and> snd e \<notin> set [s]) es = []"
    using a by (auto simp: filter_empty_conv)
  then show ?thesis
    by (subst bfs_levels.simps) (simp add: Let_def)
qed

lemma first_index_Some:
  "first_index p xs = Some i \<Longrightarrow> i < length xs \<and> p (xs ! i)"
proof (induction xs arbitrary: i)
  case Nil
  then show ?case by simp
next
  case (Cons x xs)
  show ?case
  proof (cases "p x")
    case True
    then show ?thesis using Cons.prems by simp
  next
    case False
    then obtain j where j: "first_index p xs = Some j" and i: "i = Suc j"
      using Cons.prems by auto
    then show ?thesis using Cons.IH [OF j] by simp
  qed
qed

lemma first_index_update:
  "i < length xs \<Longrightarrow> p y = p (xs ! i) \<Longrightarrow> first_index p (xs[i := y]) = first_index p xs"
proof (induction xs arbitrary: i)
  case Nil
  then show ?case by simp
next
  case (Cons x xs)
  then show ?case by (cases i) auto
qed

lemma degree_0_no_edges:
  "degree g n = 0 \<Longrightarrow> e \<in> set (edges g) \<Longrightarrow> fst e \<noteq> n \<and> snd e \<noteq> n"
  by (auto simp: degree_def in_degree_def out_degree_def filter_empty_conv)

lemma length_1_members_equal:
  "length xs = 1 \<Longrightarrow> a \<in> set xs \<Longrightarrow> b \<in> set xs \<Longrightarrow> a = b"
  by (cases xs) auto

lemma isolated_loop_filters:
  assumes iso: "isolated_allowing_self_loop g n" and loop: "has_edge g n n"
  shows "filter (\<lambda>e. fst e = n) (edges g) = [(n, n)]"
    and "filter (\<lambda>e. snd e = n) (edges g) = [(n, n)]"
proof -
  have m1: "(n, n) \<in> set (filter (\<lambda>e. fst e = n) (edges g))"
    and m2: "(n, n) \<in> set (filter (\<lambda>e. snd e = n) (edges g))"
    using loop by (auto simp: has_edge_def)
  have l1: "length (filter (\<lambda>e. fst e = n) (edges g)) \<noteq> 0"
    and l2: "length (filter (\<lambda>e. snd e = n) (edges g)) \<noteq> 0"
    using m1 m2 by fastforce+
  have "length (filter (\<lambda>e. snd e = n) (edges g))
      + length (filter (\<lambda>e. fst e = n) (edges g)) = 2"
    using iso loop
    by (simp add: isolated_allowing_self_loop_def degree_def in_degree_def out_degree_def)
  then have o: "length (filter (\<lambda>e. fst e = n) (edges g)) = 1"
    and i: "length (filter (\<lambda>e. snd e = n) (edges g)) = 1"
    using l1 l2 by arith+
  show "filter (\<lambda>e. fst e = n) (edges g) = [(n, n)]"
    using o m1 by (cases "filter (\<lambda>e. fst e = n) (edges g)") auto
  show "filter (\<lambda>e. snd e = n) (edges g) = [(n, n)]"
    using i m2 by (cases "filter (\<lambda>e. snd e = n) (edges g)") auto
qed

lemma isolated_only_loops:
  assumes iso: "isolated_allowing_self_loop g n" and e: "e \<in> set (edges g)"
    and touch: "fst e = n \<or> snd e = n"
  shows "fst e = n \<and> snd e = n"
proof (cases "has_edge g n n")
  case True
  have "e \<in> set (filter (\<lambda>e. fst e = n) (edges g)) \<or> e \<in> set (filter (\<lambda>e. snd e = n) (edges g))"
    using e touch by auto
  then have "e = (n, n)"
    unfolding isolated_loop_filters [OF iso True] by simp
  then show ?thesis by simp
next
  case False
  then have "degree g n = 0"
    using iso by (simp add: isolated_allowing_self_loop_def)
  then show ?thesis
    using degree_0_no_edges [of g n e] e touch by auto
qed

lemma split_off_present:
  "i < length ds \<Longrightarrow> n \<in> set (nodes (ds ! i)) \<Longrightarrow>
   split_off ds i n = Inr (ds[i := drop_node (ds ! i) n] @ [\<lparr>nodes = [n], edges = []\<rparr>])"
  by (simp add: split_off_def remove_node_def add_dag_def add_node_def empty_graph_def)

lemma remove_graph_edge_found:
  assumes e: "dag_with_edge ds src dst = Some i" and ne: "src \<noteq> dst"
    and s: "dag_with_node ds src = Some i" and d: "dag_with_node ds dst = Some i"
  shows "remove_graph_edge ds src dst =
     (let dag = (ds ! i)\<lparr>edges := removeAll (src, dst) (edges (ds ! i))\<rparr>;
          ds1 = ds[i := dag]
      in if is_isolate dag src then split_off ds1 i src
         else if is_isolate dag dst then split_off ds1 i dst
         else
           (case nodes_connected dag src dst of
              Inl e \<Rightarrow> Inl e
            | Inr True \<Rightarrow> Inr ds1
            | Inr False \<Rightarrow>
                (case closure_graph dag src of
                   Inl e \<Rightarrow> Inl e
                 | Inr descendant_graph \<Rightarrow>
                     (case closure_graph dag dst of
                        Inl e \<Rightarrow> Inl e
                      | Inr ancestor_graph \<Rightarrow>
                          Inr (add_dag (add_dag (remove_dag ds1 i) descendant_graph)
                                ancestor_graph)))))"
proof -
  let ?dag = "(ds ! i)\<lparr>edges := removeAll (src, dst) (edges (ds ! i))\<rparr>"
  let ?ds1 = "ds[i := ?dag]"
  have i: "i < length ds" and edge: "(src, dst) \<in> set (edges (ds ! i))"
    using first_index_Some [OF e [unfolded dag_with_edge_def]] by (simp_all add: has_edge_def)
  have re: "remove_edge (ds ! i) src dst = Inr ?dag"
    using edge by (simp add: remove_edge_def)
  have same: "\<And>n. has_node ?dag n = has_node (ds ! i) n"
    by (simp add: has_node_def)
  have s1: "dag_with_node ?ds1 src = Some i" and d1: "dag_with_node ?ds1 dst = Some i"
    using s d i same unfolding dag_with_node_def by (simp_all add: first_index_update)
  have nth: "?ds1 ! i = ?dag"
    using i by simp
  have iso_s: "node_is_isolated ?ds1 src False = Inr (is_isolate ?dag src)"
    and iso_d: "node_is_isolated ?ds1 dst False = Inr (is_isolate ?dag dst)"
    using i by (simp_all add: node_is_isolated_def s1 d1 Let_def)
  show ?thesis
  proof (cases "is_isolate ?dag src")
    case True
    then show ?thesis
      unfolding remove_graph_edge_def using ne by (simp add: e re Let_def iso_s)
  next
    case False
    note not_src = this
    show ?thesis
    proof (cases "is_isolate ?dag dst")
      case True
      then show ?thesis
        unfolding remove_graph_edge_def using ne not_src
        by (simp add: e re Let_def iso_s iso_d)
    next
      case False
      then show ?thesis
        unfolding remove_graph_edge_def using ne not_src
        by (simp add: e re Let_def iso_s iso_d)
    qed
  qed
qed

lemma descendants_only_loop:
  "has_node g n \<Longrightarrow> \<forall>e \<in> set (edges g). fst e = n \<longrightarrow> snd e = n \<Longrightarrow> descendants g n = Inr []"
  by (simp add: descendants_def bfs_levels_no_out_edges)

lemma ancestors_only_loop:
  "has_node g n \<Longrightarrow> \<forall>e \<in> set (edges g). snd e = n \<longrightarrow> fst e = n \<Longrightarrow> ancestors g n = Inr []"
proof -
  assume n: "has_node g n" and a: "\<forall>e \<in> set (edges g). snd e = n \<longrightarrow> fst e = n"
  have "\<forall>e \<in> set (reverse_edges (edges g)). fst e = n \<longrightarrow> snd e = n"
    using a by (auto simp: reverse_edges_def)
  then show ?thesis
    using n by (simp add: ancestors_def bfs_levels_no_out_edges)
qed

lemma probe_paths_lone_target:
  assumes b: "has_node g b"
    and ins: "\<forall>e \<in> set (edges g). snd e = b \<longrightarrow> fst e = b"
    and outs: "\<forall>e \<in> set (edges g). fst e = b \<longrightarrow> snd e = b"
  shows "set xs \<subseteq> set (nodes g) - {b} \<Longrightarrow> probe_paths g b xs = Inr False"
proof (induction xs)
  case Nil
  then show ?case by simp
next
  case (Cons x xs)
  have x: "has_node g x" and xb: "x \<noteq> b"
    using Cons.prems by (auto simp: has_node_def)
  have "set (bfs_levels (edges g) [x] [x]) \<subseteq> - {b}"
    using xb ins by (intro bfs_levels_closed) auto
  then have to_b: "has_path g x b = Inr False"
    using x b by (auto simp: has_path_def reachable_def)
  have from_b: "has_path g b x = Inr False"
    using x b xb outs by (simp add: has_path_def reachable_def bfs_levels_no_out_edges)
  show ?case
    using Cons by (simp add: to_b from_b)
qed

lemma nodes_connected_lone_source:
  assumes a: "has_node g a"
    and ins: "\<forall>e \<in> set (edges g). snd e = a \<longrightarrow> fst e = a"
    and outs: "\<forall>e \<in> set (edges g). fst e = a \<longrightarrow> snd e = a"
  shows "nodes_connected g a b = Inr False"
  by (simp add: nodes_connected_def descendants_only_loop [OF a outs]
      ancestors_only_loop [OF a ins])

lemma nodes_connected_lone_target:
  assumes a: "has_node g a" and b: "has_node g b" and ab: "a \<noteq> b"
    and ends: "\<forall>e \<in> set (edges g). fst e \<in> set (nodes g) \<and> snd e \<in> set (nodes g)"
    and ins: "\<forall>e \<in> set (edges g). snd e = b \<longrightarrow> fst e = b"
    and outs: "\<forall>e \<in> set (edges g). fst e = b \<longrightarrow> snd e = b"
  shows "nodes_connected g a b = Inr False"
proof -
  let ?S = "set (nodes g) - {b}"
  have aS: "set [a] \<subseteq> ?S"
    using a ab by (simp add: has_node_def)
  have des: "set (bfs_levels (edges g) [a] [a]) \<subseteq> ?S"
    using aS ends ins by (intro bfs_levels_closed) auto
  have anc: "set (bfs_levels (reverse_edges (edges g)) [a] [a]) \<subseteq> ?S"
    using aS ends outs by (intro bfs_levels_closed) (auto simp: reverse_edges_def)
  have p1: "probe_paths g b (removeAll a (bfs_levels (reverse_edges (edges g)) [a] [a])) = Inr False"
    using anc by (intro probe_paths_lone_target [OF b ins outs]) auto
  have p2: "probe_paths g b (removeAll a (bfs_levels (edges g) [a] [a])) = Inr False"
    using des by (intro probe_paths_lone_target [OF b ins outs]) auto
  show ?thesis
    using a by (simp add: nodes_connected_def descendants_def ancestors_def p1 p2
        del: bfs_levels.simps)
qed

lemma closure_graph_total: "has_node g n \<Longrightarrow> \<exists>h. closure_graph g n = Inr h"
  by (simp add: closure_graph_def descendants_def ancestors_def)

lemma closure_graph_lone_loop:
  assumes n: "has_node g n" and iso: "isolated_allowing_self_loop g n" and loop: "has_edge g n n"
  shows "closure_graph g n = Inr \<lparr>nodes = [n], edges = [(n, n)]\<rparr>"
proof -
  have outs: "\<forall>e \<in> set (edges g). fst e = n \<longrightarrow> snd e = n"
    and ins: "\<forall>e \<in> set (edges g). snd e = n \<longrightarrow> fst e = n"
    using isolated_only_loops [OF iso] by fastforce+
  show ?thesis
    by (simp add: closure_graph_def descendants_only_loop [OF n outs]
        ancestors_only_loop [OF n ins] edges_nbunch_def isolated_loop_filters(1) [OF iso loop]
        add_edge_def add_node_def empty_graph_def)
qed

lemma linked_stays_inside:
  assumes link: "weakly_linked g a w" and a: "a \<in> S"
    and closed: "\<forall>e \<in> set (edges g). fst e \<in> S \<or> snd e \<in> S \<longrightarrow> fst e \<in> S \<and> snd e \<in> S"
  shows "w \<in> S"
proof -
  have "(a, w) \<in> (set (edges g) \<union> (set (edges g))\<inverse>)\<^sup>*"
    using link by (simp add: weakly_linked_def)
  then show ?thesis
  proof (induction rule: rtrancl_induct)
    case base
    then show ?case by (rule a)
  next
    case (step y z)
    then show ?case using closed by fastforce
  qed
qed

lemma distinct_within_singleton:
  "distinct xs \<Longrightarrow> set xs \<subseteq> {b} \<Longrightarrow> xs = (if b \<in> set xs then [b] else [])"
proof (induction xs)
  case Nil
  then show ?case by simp
next
  case (Cons x xs)
  then have "x = b" and "b \<notin> set xs" and "set xs \<subseteq> {b}" by auto
  then have "xs = []" using Cons by (cases xs) auto
  then show ?case using \<open>x = b\<close> by simp
qed

lemma other_endpoint_remains:
  assumes wf: "well_formed g" and wc: "weakly_connected g"
    and edge: "(src, dst) \<in> set (edges g)"
    and ab: "(a = src \<and> b = dst) \<or> (a = dst \<and> b = src)" and ne: "src \<noteq> dst"
    and a0: "is_isolate (g\<lparr>edges := removeAll (src, dst) (edges g)\<rparr>) a"
    and biso: "isolated_allowing_self_loop (g\<lparr>edges := removeAll (src, dst) (edges g)\<rparr>) b"
  shows "nodes (drop_node (g\<lparr>edges := removeAll (src, dst) (edges g)\<rparr>) a) = [b]
    \<and> edges (drop_node (g\<lparr>edges := removeAll (src, dst) (edges g)\<rparr>) a)
        = (if has_edge g b b then [(b, b)] else [])"
proof -
  let ?g' = "g\<lparr>edges := removeAll (src, dst) (edges g)\<rparr>"
  have ends: "\<forall>e \<in> set (edges g). fst e \<in> set (nodes g) \<and> snd e \<in> set (nodes g)"
    and dn: "distinct (nodes g)" and de: "distinct (edges g)"
    using wf by (simp_all add: well_formed_def list_all_iff)
  have anode: "a \<in> set (nodes g)" and bnode: "b \<in> set (nodes g)" and anb: "a \<noteq> b"
    using ends edge ab ne by fastforce+
  have a_none: "\<And>e. e \<in> set (edges ?g') \<Longrightarrow> fst e \<noteq> a \<and> snd e \<noteq> a"
    using a0 degree_0_no_edges [of ?g' a] by (simp add: is_isolate_def)
  have b_loops: "\<And>e. e \<in> set (edges ?g') \<Longrightarrow> fst e = b \<or> snd e = b \<Longrightarrow> fst e = b \<and> snd e = b"
    using isolated_only_loops [OF biso] by blast
  have closed: "\<forall>e \<in> set (edges g).
      fst e \<in> {a, b} \<or> snd e \<in> {a, b} \<longrightarrow> fst e \<in> {a, b} \<and> snd e \<in> {a, b}"
  proof
    fix e assume e: "e \<in> set (edges g)"
    show "fst e \<in> {a, b} \<or> snd e \<in> {a, b} \<longrightarrow> fst e \<in> {a, b} \<and> snd e \<in> {a, b}"
    proof (cases "e = (src, dst)")
      case True
      then show ?thesis using ab by auto
    next
      case False
      then have e': "e \<in> set (edges ?g')" using e by simp
      have "fst e \<noteq> a \<and> snd e \<noteq> a"
        using e' by (rule a_none)
      moreover have "fst e = b \<or> snd e = b \<Longrightarrow> fst e = b \<and> snd e = b"
        using e' by (rule b_loops)
      ultimately show ?thesis by blast
    qed
  qed
  have sub: "set (nodes g) \<subseteq> {a, b}"
  proof
    fix w assume "w \<in> set (nodes g)"
    then have link: "weakly_linked g a w"
      using wc anode by (simp add: weakly_connected_def)
    have "a \<in> {a, b}" by simp
    with link show "w \<in> {a, b}"
      using closed by (rule linked_stays_inside)
  qed
  have dn': "distinct (removeAll a (nodes g))"
    using dn by (rule distinct_removeAll)
  have sub': "set (removeAll a (nodes g)) \<subseteq> {b}"
    using sub by auto
  have bin: "b \<in> set (removeAll a (nodes g))"
    using bnode anb by simp
  have n: "removeAll a (nodes g) = [b]"
    using distinct_within_singleton [OF dn' sub'] bin by simp
  let ?es = "filter (\<lambda>e. fst e \<noteq> a \<and> snd e \<noteq> a) (removeAll (src, dst) (edges g))"
  have es_sub: "set ?es \<subseteq> {(b, b)}"
  proof
    fix e assume e: "e \<in> set ?es"
    then have "e \<in> set (edges g)" and "fst e \<noteq> a" and "snd e \<noteq> a" by auto
    then have "fst e = b" and "snd e = b" using ends sub by auto
    then show "e \<in> {(b, b)}" by (cases e) simp
  qed
  have des: "distinct ?es"
    using de by (simp add: distinct_removeAll)
  have mem: "(b, b) \<in> set ?es \<longleftrightarrow> has_edge g b b"
    using anb ne by (auto simp: has_edge_def)
  have es: "?es = (if has_edge g b b then [(b, b)] else [])"
    using distinct_within_singleton [OF des es_sub] unfolding mem .
  show ?thesis
    using n es by (simp add: drop_node_def)
qed

lemma filter_update_only:
  "i < length ds \<Longrightarrow> \<forall>j < length ds. P (ds ! j) \<longrightarrow> j = i \<Longrightarrow>
   filter P (ds[i := x]) = (if P x then [x] else [])"
proof (induction ds arbitrary: i)
  case Nil
  then show ?case by simp
next
  case (Cons d ds)
  show ?case
  proof (cases i)
    case 0
    have "\<forall>y \<in> set ds. \<not> P y"
    proof
      fix y assume "y \<in> set ds"
      then obtain k where k: "k < length ds" and y: "y = ds ! k"
        by (auto simp: in_set_conv_nth)
      show "\<not> P y"
        using Cons.prems(2) [rule_format, of "Suc k"] k y 0 by auto
    qed
    then have "filter P ds = []"
      by (simp add: filter_empty_conv)
    then show ?thesis using 0 by simp
  next
    case (Suc k)
    have nd: "\<not> P d"
      using Cons.prems(2) [rule_format, of 0] Suc by auto
    have "\<forall>j < length ds. P (ds ! j) \<longrightarrow> j = k"
    proof (intro allI impI)
      fix j assume "j < length ds" and "P (ds ! j)"
      then show "j = k"
        using Cons.prems(2) [rule_format, of "Suc j"] Suc by auto
    qed
    then have "filter P (ds[k := x]) = (if P x then [x] else [])"
      using Cons.prems(1) Suc by (intro Cons.IH) auto
    then show ?thesis using Suc nd by simp
  qed
qed

lemma filter_remove_only:
  "i < length ds \<Longrightarrow> \<forall>j < length ds. P (ds ! j) \<longrightarrow> j = i \<Longrightarrow>
   filter P (remove_dag ds i) = []"
proof -
  assume i: "i < length ds" and only: "\<forall>j < length ds. P (ds ! j) \<longrightarrow> j = i"
  have "\<forall>y \<in> set (take i ds @ drop (Suc i) ds). \<not> P y"
  proof
    fix y assume "y \<in> set (take i ds @ drop (Suc i) ds)"
    then consider "y \<in> set (take i ds)" | "y \<in> set (drop (Suc i) ds)" by auto
    then show "\<not> P y"
    proof cases
      case 1
      then obtain k where "k < i" and "y = ds ! k"
        using i by (auto simp: in_set_conv_nth)
      then show ?thesis using only [rule_format, of k] i by auto
    next
      case 2
      then obtain k where k: "k < length ds - Suc i" and y: "y = ds ! (Suc i + k)"
        by (auto simp: in_set_conv_nth)
      have "Suc i + k < length ds" and "Suc i + k \<noteq> i"
        using k by arith+
      then show ?thesis using only [rule_format, of "Suc i + k"] y by blast
    qed
  qed
  then have "filter P (take i ds @ drop (Suc i) ds) = []"
    by (simp only: filter_empty_conv) 
  then show ?thesis
    by (simp only: remove_dag_def)
qed

lemma first_index_only:
  "i < length ds \<Longrightarrow> P (ds ! i) \<Longrightarrow> \<forall>j < length ds. P (ds ! j) \<longrightarrow> j = i \<Longrightarrow>
   first_index P ds = Some i"
proof (induction ds arbitrary: i)
  case Nil
  then show ?case by simp
next
  case (Cons d ds)
  show ?case
  proof (cases i)
    case 0
    have "P d" using Cons.prems(2) 0 by simp
    then show ?thesis using 0 by simp
  next
    case (Suc k)
    have nd: "\<not> P d"
      using Cons.prems(3) [rule_format, of 0] Suc by auto
    have k: "k < length ds" and pk: "P (ds ! k)"
      using Cons.prems(1,2) Suc by simp_all
    have only: "\<forall>j < length ds. P (ds ! j) \<longrightarrow> j = k"
    proof (intro allI impI)
      fix j assume "j < length ds" and "P (ds ! j)"
      then show "j = k"
        using Cons.prems(3) [rule_format, of "Suc j"] Suc by auto
    qed
    have "first_index P ds = Some k"
      using k pk only by (rule Cons.IH)
    then show ?thesis using Suc nd by simp
  qed
qed

lemma empty_nodes: "m \<notin> set (nodes empty_graph)"
  by (simp add: empty_graph_def)

lemma nodes_add_edge: "set (nodes (add_edge g u v)) = insert u (insert v (set (nodes g)))"
  by (auto simp: add_edge_def add_node_def Let_def)

lemma nodes_add_edges_from:
  "m \<in> set (nodes (add_edges_from g es)) \<Longrightarrow>
   m \<in> set (nodes g) \<or> (\<exists>e \<in> set es. fst e = m \<or> snd e = m)"
proof (induction es arbitrary: g)
  case Nil
  then show ?case by simp
next
  case (Cons x es)
  have "m \<in> set (nodes (add_edge g (fst x) (snd x))) \<or> (\<exists>e \<in> set es. fst e = m \<or> snd e = m)"
    using Cons.prems Cons.IH [of "add_edge g (fst x) (snd x)"] by simp
  then consider "m = fst x \<or> m = snd x" | "m \<in> set (nodes g)"
    | "\<exists>e \<in> set es. fst e = m \<or> snd e = m"
    unfolding nodes_add_edge by blast
  then show ?case
  proof cases
    case 1
    have "x \<in> set (x # es)" by simp
    moreover have "fst x = m \<or> snd x = m" using 1 by blast
    ultimately show ?thesis by blast
  next
    case 2
    then show ?thesis by blast
  next
    case 3
    then obtain e where "e \<in> set es" and "fst e = m \<or> snd e = m" by blast
    then have "e \<in> set (x # es)" by simp
    then show ?thesis using \<open>fst e = m \<or> snd e = m\<close> by blast
  qed
qed

lemma edges_nbunch_sources: "e \<in> set (edges_nbunch g ns) \<Longrightarrow> e \<in> set (edges g) \<and> fst e \<in> set ns"
  unfolding edges_nbunch_def by (induction ns) (simp_all, blast)

lemma closure_graph_avoids:
  assumes loops: "\<forall>e \<in> set (edges g). fst e = m \<or> snd e = m \<longrightarrow> fst e = m \<and> snd e = m"
    and cm: "c \<noteq> m" and h: "closure_graph g c = Inr h"
  shows "m \<notin> set (nodes h)"
proof -
  let ?des = "removeAll c (bfs_levels (edges g) [c] [c])"
  let ?anc = "removeAll c (bfs_levels (reverse_edges (edges g)) [c] [c])"
  have c: "has_node g c"
    using h by (auto simp: closure_graph_def descendants_def split: if_splits)
  have des: "set (bfs_levels (edges g) [c] [c]) \<subseteq> - {m}"
    using cm loops by (intro bfs_levels_closed) auto
  have anc: "set (bfs_levels (reverse_edges (edges g)) [c] [c]) \<subseteq> - {m}"
    using cm loops by (intro bfs_levels_closed) (auto simp: reverse_edges_def)
  have src: "\<And>e ns. e \<in> set (edges_nbunch g ns) \<Longrightarrow> m \<notin> set ns \<Longrightarrow> fst e \<noteq> m \<and> snd e \<noteq> m"
  proof -
    fix e ns assume e: "e \<in> set (edges_nbunch g ns)" and m: "m \<notin> set ns"
    have "e \<in> set (edges g)" and "fst e \<in> set ns"
      using edges_nbunch_sources [OF e] by simp_all
    then have e1: "fst e \<noteq> m" and e2: "fst e = m \<or> snd e = m \<longrightarrow> fst e = m \<and> snd e = m"
      using loops m by blast+
    show "fst e \<noteq> m \<and> snd e \<noteq> m"
      using e1 e2 by blast
  qed
  have hh: "h = add_edges_from
                (add_edges_from (add_edges_from empty_graph (edges_nbunch g ?des))
                   (edges_nbunch g ?anc))
                (edges_nbunch g [c])"
    using h c by (simp add: closure_graph_def descendants_def ancestors_def
        del: bfs_levels.simps)
  have "m \<notin> set ?des" and "m \<notin> set ?anc" and "m \<notin> set [c]"
    using des anc cm by auto
  then have away: "\<And>e. e \<in> set (edges_nbunch g ?des) \<or> e \<in> set (edges_nbunch g ?anc)
        \<or> e \<in> set (edges_nbunch g [c]) \<Longrightarrow> fst e \<noteq> m \<and> snd e \<noteq> m"
    using src by blast
  show ?thesis
  proof
    assume "m \<in> set (nodes h)"
    then have "m \<in> set (nodes (add_edges_from (add_edges_from empty_graph
            (edges_nbunch g ?des)) (edges_nbunch g ?anc)))
        \<or> (\<exists>e \<in> set (edges_nbunch g [c]). fst e = m \<or> snd e = m)"
      unfolding hh by (rule nodes_add_edges_from)
    then have "m \<in> set (nodes (add_edges_from empty_graph (edges_nbunch g ?des)))
        \<or> (\<exists>e \<in> set (edges_nbunch g ?anc). fst e = m \<or> snd e = m)
        \<or> (\<exists>e \<in> set (edges_nbunch g [c]). fst e = m \<or> snd e = m)"
      using nodes_add_edges_from
        [of m "add_edges_from empty_graph (edges_nbunch g ?des)" "edges_nbunch g ?anc"]
      by blast
    then have "(\<exists>e \<in> set (edges_nbunch g ?des). fst e = m \<or> snd e = m)
        \<or> (\<exists>e \<in> set (edges_nbunch g ?anc). fst e = m \<or> snd e = m)
        \<or> (\<exists>e \<in> set (edges_nbunch g [c]). fst e = m \<or> snd e = m)"
      using nodes_add_edges_from [of m empty_graph "edges_nbunch g ?des"] empty_nodes [of m]
      by blast
    then obtain e where "e \<in> set (edges_nbunch g ?des) \<or> e \<in> set (edges_nbunch g ?anc)
        \<or> e \<in> set (edges_nbunch g [c])" and "fst e = m \<or> snd e = m"
      by blast
    then show False
      using away [of e] by blast
  qed
qed

lemma remove_dag_update: "remove_dag (ds[i := x]) i = remove_dag ds i"
  by (simp add: remove_dag_def)

lemma DiGraph_fields: "nodes h = ns \<Longrightarrow> edges h = es \<Longrightarrow> h = \<lparr>nodes = ns, edges = es\<rparr>"
  by (cases h) simp

text \<open>
  Claim C3, as amended. Let \<open>remove_graph_edge\<close> remove an edge that is not a self-loop
  from a graph that is weakly connected, in a store where no other graph holds either
  endpoint. Then every endpoint that is left without any edge but a self-loop is
  afterwards in exactly one graph of the store: a graph of its own, with no other node
  and with the endpoint's self-loop if it has one and no other edge. So the endpoint
  has left the graph the edge was in.
\<close>

theorem remove_graph_edge_isolated_endpoint:
  assumes e: "dag_with_edge ds src dst = Some i" and ne: "src \<noteq> dst"
    and os: "only_graph_with ds i src" and od: "only_graph_with ds i dst"
    and wf: "well_formed (ds ! i)" and wc: "weakly_connected (ds ! i)"
    and n: "n = src \<or> n = dst"
    and iso: "isolated_allowing_self_loop
                ((ds ! i)\<lparr>edges := removeAll (src, dst) (edges (ds ! i))\<rparr>) n"
  shows "\<exists>ds'. remove_graph_edge ds src dst = Inr ds'
      \<and> graphs_with_node ds' n
          = [\<lparr>nodes = [n], edges = (if has_edge (ds ! i) n n then [(n, n)] else [])\<rparr>]"
proof -
  let ?g = "ds ! i"
  let ?g' = "?g\<lparr>edges := removeAll (src, dst) (edges ?g)\<rparr>"
  let ?ds1 = "ds[i := ?g']"
  let ?P = "\<lambda>g. has_node g n"
  let ?single = "\<lparr>nodes = [n], edges = (if has_edge ?g n n then [(n, n)] else [])\<rparr>"
  have i: "i < length ds" and edge: "(src, dst) \<in> set (edges ?g)"
    using first_index_Some [OF e [unfolded dag_with_edge_def]] by (simp_all add: has_edge_def)
  have ends0: "\<forall>e \<in> set (edges ?g). fst e \<in> set (nodes ?g) \<and> snd e \<in> set (nodes ?g)"
    using wf by (simp add: well_formed_def list_all_iff)
  have sn: "src \<in> set (nodes ?g)" and dn: "dst \<in> set (nodes ?g)"
    using ends0 [rule_format, OF edge] by simp_all
  have os': "\<forall>j < length ds. has_node (ds ! j) src \<longrightarrow> j = i"
    using os by (simp only: only_graph_with_def)
  have od': "\<forall>j < length ds. has_node (ds ! j) dst \<longrightarrow> j = i"
    using od by (simp only: only_graph_with_def)
  have hs: "has_node (ds ! i) src" and hd: "has_node (ds ! i) dst"
    using sn dn by (simp_all add: has_node_def)
  have s: "dag_with_node ds src = Some i"
    unfolding dag_with_node_def
    using i hs os' by (rule first_index_only [of i ds "\<lambda>g. has_node g src"])
  have d: "dag_with_node ds dst = Some i"
    unfolding dag_with_node_def
    using i hd od' by (rule first_index_only [of i ds "\<lambda>g. has_node g dst"])
  have onlyn: "\<forall>j < length ds. ?P (ds ! j) \<longrightarrow> j = i"
  proof (cases "n = src")
    case True
    show ?thesis unfolding True by (rule os')
  next
    case False
    then have nd: "n = dst" using n by simp
    show ?thesis unfolding nd by (rule od')
  qed
  have i1: "i < length ?ds1" and nth: "?ds1 ! i = ?g'"
    using i by simp_all
  have R: "remove_graph_edge ds src dst =
     (if is_isolate ?g' src then split_off ?ds1 i src
      else if is_isolate ?g' dst then split_off ?ds1 i dst
      else
        (case nodes_connected ?g' src dst of
           Inl e \<Rightarrow> Inl e
         | Inr True \<Rightarrow> Inr ?ds1
         | Inr False \<Rightarrow>
             (case closure_graph ?g' src of
                Inl e \<Rightarrow> Inl e
              | Inr descendant_graph \<Rightarrow>
                  (case closure_graph ?g' dst of
                     Inl e \<Rightarrow> Inl e
                   | Inr ancestor_graph \<Rightarrow>
                       Inr (add_dag (add_dag (remove_dag ?ds1 i) descendant_graph)
                             ancestor_graph)))))"
    using remove_graph_edge_found [OF e ne s d] by (simp add: Let_def)
  have loop_same: "\<And>m. has_edge ?g' m m = has_edge ?g m m"
    using ne by (auto simp: has_edge_def)
  have no_loop: "\<And>m. is_isolate ?g' m \<Longrightarrow> \<not> has_edge ?g m m"
  proof
    fix m assume m0: "is_isolate ?g' m" and "has_edge ?g m m"
    then have "(m, m) \<in> set (edges ?g')"
      using loop_same [of m] by (simp add: has_edge_def)
    then show False
      using degree_0_no_edges [of ?g' m "(m, m)"] m0 by (simp add: is_isolate_def)
  qed
  have split: "\<And>a. a \<in> set (nodes ?g) \<Longrightarrow>
      split_off ?ds1 i a = Inr (ds[i := drop_node ?g' a] @ [\<lparr>nodes = [a], edges = []\<rparr>])"
    using split_off_present [OF i1] nth by simp
  have upd: "\<And>x. filter ?P (ds[i := x]) = (if ?P x then [x] else [])"
    using i onlyn by (rule filter_update_only [of i ds "\<lambda>g. has_node g n"])
  have gw: "\<And>x y. graphs_with_node (ds[i := x] @ [y]) n
      = (if has_node x n then [x] else []) @ (if has_node y n then [y] else [])"
    unfolding graphs_with_node_def filter_append upd by simp
  have gone: "\<And>a. \<not> has_node (drop_node ?g' a) a"
    by (simp add: has_node_def drop_node_def)
  have final: "\<And>ds'. remove_graph_edge ds src dst = Inr ds' \<Longrightarrow>
      graphs_with_node ds' n = [?single] \<Longrightarrow> ?thesis"
    by blast
  have isolated_case: "\<And>a b. (a = src \<and> b = dst) \<or> (a = dst \<and> b = src) \<Longrightarrow>
      is_isolate ?g' a \<Longrightarrow>
      graphs_with_node (ds[i := drop_node ?g' a] @ [\<lparr>nodes = [a], edges = []\<rparr>]) n = [?single]"
  proof -
    fix a b assume ab: "(a = src \<and> b = dst) \<or> (a = dst \<and> b = src)"
      and a0: "is_isolate ?g' a"
    have anb: "a \<noteq> b" using ab ne by auto
    show "graphs_with_node (ds[i := drop_node ?g' a] @ [\<lparr>nodes = [a], edges = []\<rparr>]) n
        = [?single]"
    proof (cases "n = a")
      case True
      have "\<not> has_edge ?g n n"
        using no_loop [OF a0] True by simp
      then show ?thesis
        unfolding gw using True gone [of a] by (simp add: has_node_def)
    next
      case False
      then have nb: "n = b" using n ab by auto
      have rest: "nodes (drop_node ?g' a) = [b]
          \<and> edges (drop_node ?g' a) = (if has_edge ?g b b then [(b, b)] else [])"
        using wf wc edge ab ne a0 iso [unfolded nb] by (rule other_endpoint_remains)
      then have eq: "drop_node ?g' a = ?single"
        unfolding nb by (intro DiGraph_fields) simp_all
      have "?P ?single"
        by (simp add: has_node_def)
      then show ?thesis
        unfolding gw eq using False by (simp add: has_node_def)
    qed
  qed
  show ?thesis
  proof (cases "is_isolate ?g' src")
    case True
    have res: "remove_graph_edge ds src dst
        = Inr (ds[i := drop_node ?g' src] @ [\<lparr>nodes = [src], edges = []\<rparr>])"
      using R True split [OF sn] by simp
    show ?thesis
      using res by (rule final) (rule isolated_case [of src dst], simp, rule True)
  next
    case False
    note src1 = this
    show ?thesis
    proof (cases "is_isolate ?g' dst")
      case True
      have res: "remove_graph_edge ds src dst
          = Inr (ds[i := drop_node ?g' dst] @ [\<lparr>nodes = [dst], edges = []\<rparr>])"
        using R src1 True split [OF dn] by simp
      show ?thesis
        using res by (rule final) (rule isolated_case [of dst src], simp, rule True)
    next
      case False
      note dst1 = this
      have nnode: "has_node ?g' n" and snode: "has_node ?g' src" and dnode: "has_node ?g' dst"
        using n sn dn by (auto simp: has_node_def)
      have loop': "has_edge ?g' n n"
      proof (rule ccontr)
        assume "\<not> has_edge ?g' n n"
        then have "is_isolate ?g' n"
          using iso by (simp add: isolated_allowing_self_loop_def is_isolate_def)
        then show False using n src1 dst1 by auto
      qed
      then have loop: "has_edge ?g n n"
        using loop_same by simp
      have loops: "\<forall>e \<in> set (edges ?g'). fst e = n \<or> snd e = n \<longrightarrow> fst e = n \<and> snd e = n"
        using isolated_only_loops [OF iso] by blast
      have outs: "\<forall>e \<in> set (edges ?g'). fst e = n \<longrightarrow> snd e = n"
        and ins: "\<forall>e \<in> set (edges ?g'). snd e = n \<longrightarrow> fst e = n"
        using loops by blast+
      have ends: "\<forall>e \<in> set (edges ?g'). fst e \<in> set (nodes ?g') \<and> snd e \<in> set (nodes ?g')"
        using ends0 by auto
      have nc: "nodes_connected ?g' src dst = Inr False"
      proof (cases "n = src")
        case True
        show ?thesis
          using snode ins outs unfolding True by (rule nodes_connected_lone_source)
      next
        case False
        then have nd: "n = dst" using n by simp
        show ?thesis
          using snode dnode ne ends ins outs unfolding nd by (rule nodes_connected_lone_target)
      qed
      obtain dg where dg: "closure_graph ?g' src = Inr dg"
        using closure_graph_total [OF snode] by blast
      obtain ag where ag: "closure_graph ?g' dst = Inr ag"
        using closure_graph_total [OF dnode] by blast
      have lone: "closure_graph ?g' n = Inr \<lparr>nodes = [n], edges = [(n, n)]\<rparr>"
        using nnode iso loop' by (rule closure_graph_lone_loop)
      have res: "remove_graph_edge ds src dst = Inr (remove_dag ds i @ [dg, ag])"
        using R src1 dst1 nc dg ag by (simp add: add_dag_def remove_dag_update)
      have others: "filter ?P (remove_dag ds i) = []"
        using i onlyn by (rule filter_remove_only)
      have single: "?single = \<lparr>nodes = [n], edges = [(n, n)]\<rparr>"
        using loop by simp
      have two: "filter ?P [dg, ag] = [?single]"
      proof (cases "n = src")
        case True
        have "dg = ?single"
          using lone dg single True by simp
        moreover have "n \<notin> set (nodes ag)"
          using loops _ ag by (rule closure_graph_avoids) (use True ne in simp)
        ultimately show ?thesis
          by (simp add: has_node_def)
      next
        case False
        then have nd: "n = dst" using n by simp
        have "ag = ?single"
          using lone ag single nd by simp
        moreover have "n \<notin> set (nodes dg)"
          using loops _ dg by (rule closure_graph_avoids) (use nd ne in simp)
        ultimately show ?thesis
          by (simp add: has_node_def)
      qed
      have "graphs_with_node (remove_dag ds i @ [dg, ag]) n = [?single]"
        unfolding graphs_with_node_def filter_append others two by simp
      with res show ?thesis
        by (rule final)
    qed
  qed
qed

theorem remove_graph_edge_isolated_endpoint_witness:
  "well_formed \<lparr>nodes = [''a'', ''b'', ''c''],
                 edges = [(''a'', ''a''), (''a'', ''b''), (''b'', ''c'')]\<rparr>
   \<and> weakly_connected \<lparr>nodes = [''a'', ''b'', ''c''],
                 edges = [(''a'', ''a''), (''a'', ''b''), (''b'', ''c'')]\<rparr>
   \<and> only_graph_with [\<lparr>nodes = [''a'', ''b'', ''c''],
                 edges = [(''a'', ''a''), (''a'', ''b''), (''b'', ''c'')]\<rparr>] 0 ''a''
   \<and> only_graph_with [\<lparr>nodes = [''a'', ''b'', ''c''],
                 edges = [(''a'', ''a''), (''a'', ''b''), (''b'', ''c'')]\<rparr>] 0 ''b''
   \<and> isolated_allowing_self_loop
        \<lparr>nodes = [''a'', ''b'', ''c''], edges = [(''a'', ''a''), (''b'', ''c'')]\<rparr> ''a''
   \<and> (\<exists>ds'. remove_graph_edge
               [\<lparr>nodes = [''a'', ''b'', ''c''],
                 edges = [(''a'', ''a''), (''a'', ''b''), (''b'', ''c'')]\<rparr>] ''a'' ''b'' = Inr ds'
          \<and> graphs_with_node ds' ''a'' = [\<lparr>nodes = [''a''], edges = [(''a'', ''a'')]\<rparr>])"
proof -
  let ?g = "\<lparr>nodes = [''a'', ''b'', ''c''],
             edges = [(''a'', ''a''), (''a'', ''b''), (''b'', ''c'')]\<rparr>"
  let ?R = "set (edges ?g) \<union> (set (edges ?g))\<inverse>"
  have e: "dag_with_edge [?g] ''a'' ''b'' = Some 0"
    by (simp add: dag_with_edge_def has_edge_def)
  have ne: "''a'' \<noteq> ''b''"
    by simp
  have os: "only_graph_with [?g] 0 ''a''" and od: "only_graph_with [?g] 0 ''b''"
    by (simp_all add: only_graph_with_def)
  have wf: "well_formed ?g"
    by (simp add: well_formed_def)
  have ab: "(''a'', ''b'') \<in> ?R\<^sup>*" and ba: "(''b'', ''a'') \<in> ?R\<^sup>*"
    and bc: "(''b'', ''c'') \<in> ?R\<^sup>*" and cb: "(''c'', ''b'') \<in> ?R\<^sup>*"
    by (rule r_into_rtrancl, simp)+
  have ac: "(''a'', ''c'') \<in> ?R\<^sup>*"
    using ab bc by (rule rtrancl_trans)
  have ca: "(''c'', ''a'') \<in> ?R\<^sup>*"
    using cb ba by (rule rtrancl_trans)
  have wc: "weakly_connected ?g"
    using ab ba bc cb ac ca by (simp add: weakly_connected_def weakly_linked_def)
  have iso: "isolated_allowing_self_loop
      \<lparr>nodes = [''a'', ''b'', ''c''], edges = [(''a'', ''a''), (''b'', ''c'')]\<rparr> ''a''"
    by (simp add: isolated_allowing_self_loop_def has_edge_def degree_def in_degree_def
        out_degree_def)
  have iso': "isolated_allowing_self_loop
      (([?g] ! 0)\<lparr>edges := removeAll (''a'', ''b'') (edges ([?g] ! 0))\<rparr>) ''a''"
    using iso by simp
  have "\<exists>ds'. remove_graph_edge [?g] ''a'' ''b'' = Inr ds'
      \<and> graphs_with_node ds' ''a''
          = [\<lparr>nodes = [''a''],
              edges = (if has_edge ([?g] ! 0) ''a'' ''a'' then [(''a'', ''a'')] else [])\<rparr>]"
    using e ne os od _ _ _ iso'
    by (rule remove_graph_edge_isolated_endpoint) (simp_all add: wf wc)
  then show ?thesis
    using wf wc os od iso by (simp add: has_edge_def)
qed

text \<open>
  Claim C3 as stated fails. Removing the node \<open>x\<close> leaves the edges \<open>s \<rightarrow> d\<close> and \<open>u \<rightarrow> v\<close>
  in one graph. When \<open>s \<rightarrow> d\<close> is removed, \<open>s\<close> is isolated, is split off, and the
  function returns; \<open>d\<close> is isolated too, and stays in a graph with \<open>u\<close> and \<open>v\<close>.
\<close>

theorem remove_graph_edge_isolated_endpoint_counterexample:
  "mutate_all []
     [Add_node ''s'', Add_node ''d'', Add_node ''u'', Add_node ''v'', Add_node ''x'',
      Add_edge ''s'' ''d'', Add_edge ''u'' ''v'', Add_edge ''x'' ''d'', Add_edge ''x'' ''v'',
      Remove_node ''x'']
     = Inr [\<lparr>nodes = [''s'', ''d'', ''u'', ''v''], edges = [(''s'', ''d''), (''u'', ''v'')]\<rparr>]
   \<and> isolated_allowing_self_loop
        \<lparr>nodes = [''s'', ''d'', ''u'', ''v''], edges = [(''u'', ''v'')]\<rparr> ''d''
   \<and> remove_graph_edge
        [\<lparr>nodes = [''s'', ''d'', ''u'', ''v''], edges = [(''s'', ''d''), (''u'', ''v'')]\<rparr>]
        ''s'' ''d''
     = Inr [\<lparr>nodes = [''d'', ''u'', ''v''], edges = [(''u'', ''v'')]\<rparr>,
            \<lparr>nodes = [''s''], edges = []\<rparr>]
   \<and> graphs_with_node
        [\<lparr>nodes = [''d'', ''u'', ''v''], edges = [(''u'', ''v'')]\<rparr>,
         \<lparr>nodes = [''s''], edges = []\<rparr>] ''d''
     = [\<lparr>nodes = [''d'', ''u'', ''v''], edges = [(''u'', ''v'')]\<rparr>]"
  by code_simp

text \<open>
  The store of the theorem holds each endpoint in one graph only. The run that leaves
  \<open>c\<close> in two graphs shows what happens otherwise: when \<open>q \<rightarrow> c\<close> is then removed, \<open>c\<close> has no
  edge left in the graph the edge was in, but the isolation check looks \<open>c\<close> up in the
  first graph that holds it, where it has the edge \<open>p \<rightarrow> c\<close>. The graph of the edge is
  split, \<open>c\<close> gets the empty graph, and no graph with \<open>c\<close> alone is made.
\<close>

lemma remove_graph_edge_endpoint_held_twice:
  "mutate_all []
     [Add_node ''a'', Add_node ''b'', Add_node ''p'', Add_node ''c'', Add_node ''q'',
      Add_edge ''a'' ''b'', Add_edge ''p'' ''a'', Add_edge ''p'' ''c'', Add_edge ''q'' ''c'',
      Add_edge ''q'' ''b'', Remove_edge ''a'' ''b'', Remove_edge ''q'' ''c'']
   = Inr [\<lparr>nodes = [''p'', ''a'', ''c''], edges = [(''p'', ''a''), (''p'', ''c'')]\<rparr>,
          \<lparr>nodes = [''q'', ''b''], edges = [(''q'', ''b'')]\<rparr>,
          \<lparr>nodes = [], edges = []\<rparr>]
   \<and> isolated_allowing_self_loop
        \<lparr>nodes = [''q'', ''c'', ''b''], edges = [(''q'', ''b'')]\<rparr> ''c''"
  by code_simp

text \<open>
  The isolation check of \<open>remove_graph_edge\<close> is the default one: a node with a self-loop
  is not isolated for it, whatever else it is connected to. Such an endpoint is
  separated by the split at the end of the function, as the theorem above shows. The
  check with \<open>allow_self_loop\<close>, which \<open>remove_node_from_graph\<close> uses, is the isolation of
  the claim.
\<close>

lemma node_is_isolated_default_counts_self_loop:
  assumes n: "dag_with_node ds n = Some i" and loop: "has_edge (ds ! i) n n"
  shows "node_is_isolated ds n False = Inr False"
    and "node_is_isolated ds n True = Inr (isolated_allowing_self_loop (ds ! i) n)"
proof -
  have "(n, n) \<in> set (filter (\<lambda>e. fst e = n) (edges (ds ! i)))"
    using loop by (simp add: has_edge_def)
  then have "length (filter (\<lambda>e. fst e = n) (edges (ds ! i))) \<noteq> 0"
    by fastforce
  then have "degree (ds ! i) n \<noteq> 0"
    by (simp add: degree_def out_degree_def)
  then show "node_is_isolated ds n False = Inr False"
    using n by (simp add: node_is_isolated_def is_isolate_def)
  have "(int (degree (ds ! i) n) - 2 = 0) = (degree (ds ! i) n = 2)"
    by arith
  then show "node_is_isolated ds n True = Inr (isolated_allowing_self_loop (ds ! i) n)"
    using n loop by (simp add: node_is_isolated_def isolated_allowing_self_loop_def)
qed

subsection \<open>What \<open>nodes_connected\<close> does establish\<close>

text \<open>
  One direction of claim C2 holds: when \<open>nodes_connected\<close> returns \<open>True\<close>, the two
  nodes are connected with edge direction ignored.
\<close>

lemma reachable_sound: "set (reachable g s) \<subseteq> {y. (s, y) \<in> (set (edges g))\<^sup>*}"
  unfolding reachable_def
  by (rule bfs_levels_closed) (auto intro: rtrancl_into_rtrancl)

lemma reachable_reverse_sound:
  "set (bfs_levels (reverse_edges (edges g)) [s] [s]) \<subseteq> {y. (y, s) \<in> (set (edges g))\<^sup>*}"
  by (rule bfs_levels_closed) (auto simp: reverse_edges_def intro: converse_rtrancl_into_rtrancl)

lemma probe_paths_sound:
  "probe_paths g b xs = Inr True \<Longrightarrow>
   \<exists>x \<in> set xs. (x, b) \<in> (set (edges g))\<^sup>* \<or> (b, x) \<in> (set (edges g))\<^sup>*"
proof (induction xs)
  case Nil
  then show ?case by simp
next
  case (Cons x xs)
  show ?case
  proof (cases "has_path g x b = Inr True")
    case True
    then have "b \<in> set (reachable g x)"
      by (simp add: has_path_def split: if_splits)
    then show ?thesis using reachable_sound [of g x] by auto
  next
    case False
    note no1 = this
    show ?thesis
    proof (cases "has_path g b x = Inr True")
      case True
      then have "x \<in> set (reachable g b)"
        by (simp add: has_path_def split: if_splits)
      then show ?thesis using reachable_sound [of g b] by auto
    next
      case False
      then have "probe_paths g b xs = Inr True"
        using Cons.prems no1 by (auto split: sum.splits bool.splits)
      then show ?thesis using Cons.IH by auto
    qed
  qed
qed

lemma directed_path_weakly_linked:
  "(x, y) \<in> (set (edges g))\<^sup>* \<Longrightarrow> weakly_linked g x y \<and> weakly_linked g y x"
proof -
  assume p: "(x, y) \<in> (set (edges g))\<^sup>*"
  have "(x, y) \<in> (set (edges g) \<union> (set (edges g))\<inverse>)\<^sup>*"
    using p by (rule rtrancl_mono [THEN subsetD, rotated]) simp
  moreover have "(y, x) \<in> ((set (edges g))\<inverse>)\<^sup>*"
    using p by (simp add: rtrancl_converse)
  then have "(y, x) \<in> (set (edges g) \<union> (set (edges g))\<inverse>)\<^sup>*"
    by (rule rtrancl_mono [THEN subsetD, rotated]) simp
  ultimately show ?thesis by (simp add: weakly_linked_def)
qed

lemma weakly_linked_trans:
  "weakly_linked g x y \<Longrightarrow> weakly_linked g y z \<Longrightarrow> weakly_linked g x z"
  unfolding weakly_linked_def by (rule rtrancl_trans)

lemma nodes_connected_sound:
  assumes "nodes_connected g a b = Inr True"
  shows "weakly_linked g a b"
proof -
  let ?anc = "removeAll a (bfs_levels (reverse_edges (edges g)) [a] [a])"
  let ?des = "removeAll a (bfs_levels (edges g) [a] [a])"
  have "probe_paths g b ?anc = Inr True \<or> probe_paths g b ?des = Inr True"
    using assms
    by (auto simp: nodes_connected_def ancestors_def descendants_def
        split: if_splits sum.splits bool.splits simp del: bfs_levels.simps)
  then obtain x where x: "(x, a) \<in> (set (edges g))\<^sup>* \<or> (a, x) \<in> (set (edges g))\<^sup>*"
    and xb: "(x, b) \<in> (set (edges g))\<^sup>* \<or> (b, x) \<in> (set (edges g))\<^sup>*"
    using probe_paths_sound [of g b ?anc] probe_paths_sound [of g b ?des]
      reachable_reverse_sound [of g a] reachable_sound [of g a]
    by (auto simp: reachable_def simp del: bfs_levels.simps)
  have "weakly_linked g a x"
    using x directed_path_weakly_linked [of x a g] directed_path_weakly_linked [of a x g]
    by auto
  moreover have "weakly_linked g x b"
    using xb directed_path_weakly_linked [of x b g] directed_path_weakly_linked [of b x g]
    by auto
  ultimately show ?thesis by (rule weakly_linked_trans)
qed

section \<open>The execution order\<close>

text \<open>Records are determined by their fields.\<close>

lemma DiGraph_eta: "\<lparr>nodes = nodes g, edges = edges g\<rparr> = (g::'a DiGraph)"
  by (cases g) simp

lemma add_node_fresh: "n \<notin> set (nodes g) \<Longrightarrow> add_node g n = g\<lparr>nodes := nodes g @ [n]\<rparr>"
  by (simp add: add_node_def)

lemma add_node_present: "n \<in> set (nodes g) \<Longrightarrow> add_node g n = g"
  by (simp add: add_node_def)

lemma add_edge_new:
  "u \<in> set (nodes g) \<Longrightarrow> v \<in> set (nodes g) \<Longrightarrow> (u, v) \<notin> set (edges g) \<Longrightarrow>
   add_edge g u v = g\<lparr>edges := edges g @ [(u, v)]\<rparr>"
  by (simp add: add_edge_def add_node_def)

lemma add_invisible_edges_appends:
  "distinct sources \<Longrightarrow> set sources \<subseteq> set (nodes g) \<Longrightarrow> i \<in> set (nodes g) \<Longrightarrow>
   \<forall>s \<in> set sources. (i, s) \<notin> set (edges g) \<Longrightarrow>
   add_invisible_edges g i sources = g\<lparr>edges := edges g @ map (\<lambda>s. (i, s)) sources\<rparr>"
proof (induction sources arbitrary: g)
  case Nil
  then show ?case by simp
next
  case (Cons s sources)
  have step: "add_edge g i s = g\<lparr>edges := edges g @ [(i, s)]\<rparr>"
    using Cons.prems by (intro add_edge_new) auto
  have "add_invisible_edges (g\<lparr>edges := edges g @ [(i, s)]\<rparr>) i sources
      = (g\<lparr>edges := edges g @ [(i, s)]\<rparr>)
          \<lparr>edges := edges (g\<lparr>edges := edges g @ [(i, s)]\<rparr>) @ map (\<lambda>s. (i, s)) sources\<rparr>"
    using Cons.prems by (intro Cons.IH) auto
  then show ?case
    by (simp add: step)
qed

lemma remove_invisible_edges_restores:
  "distinct sources \<Longrightarrow> \<forall>s \<in> set sources. (i, s) \<notin> set es \<Longrightarrow>
   remove_invisible_edges (g\<lparr>edges := es @ map (\<lambda>s. (i, s)) sources\<rparr>) i sources
     = Inr (g\<lparr>edges := es\<rparr>)"
proof (induction sources arbitrary: es)
  case Nil
  then show ?case by simp
next
  case (Cons s sources)
  have notin: "(i, s) \<notin> set (map (\<lambda>s. (i, s)) sources)"
    using Cons.prems by auto
  have rm: "removeAll (i, s) (es @ (i, s) # map (\<lambda>s. (i, s)) sources)
      = es @ map (\<lambda>s. (i, s)) sources"
    using Cons.prems notin by (simp add: removeAll_id)
  show ?case
    using Cons.prems Cons.IH [of es]
    by (simp add: remove_edge_def rm del: removeAll_append)
qed

lemma remove_node_appended:
  assumes i: "i \<notin> set (nodes g)"
    and es: "list_all (\<lambda>e. fst e \<in> set (nodes g) \<and> snd e \<in> set (nodes g)) (edges g)"
  shows "remove_node (g\<lparr>nodes := nodes g @ [i]\<rparr>) i = Inr g"
proof -
  have "filter (\<lambda>e. fst e \<noteq> i \<and> snd e \<noteq> i) (edges g) = edges g"
    using i es by (auto simp: list_all_iff filter_id_conv)
  then show ?thesis
    using i by (simp add: remove_node_def drop_node_def removeAll_id DiGraph_eta)
qed

text \<open>
  Claim C9. For every graph whose nodes are not the integer \<open>0\<close> (item names are
  strings), \<open>calc_exec_order\<close> returns without an error and the graph after the call is
  the graph before the call: the same nodes and the same edges, in the same order.
\<close>

theorem calc_exec_order_leaves_graph:
  assumes wf: "well_formed g" and fresh: "Integer 0 \<notin> set (nodes g)"
  shows "\<exists>exec_order. calc_exec_order g = Inr (exec_order, g)"
proof (cases "is_directed_acyclic_graph g")
  case False
  then show ?thesis by (simp add: calc_exec_order_def)
next
  case True
  note dag = this
  show ?thesis
  proof (cases "source_nodes g")
    case Nil
    then show ?thesis using dag by (simp add: calc_exec_order_def)
  next
    case (Cons s rest)
    show ?thesis
    proof (cases rest)
      case Nil
      have "s \<in> set (source_nodes g)" using Cons by simp
      then have "has_node g s" by (simp add: source_nodes_def has_node_def)
      then show ?thesis
        using dag Cons Nil by (simp add: calc_exec_order_def bfs_edges_def)
    next
      case (Cons s2 rest2)
      let ?i = "Integer 0"
      let ?srcs = "source_nodes g"
      let ?g0 = "g\<lparr>nodes := nodes g @ [?i]\<rparr>"
      have srcs: "?srcs = s # s2 # rest2" using \<open>source_nodes g = s # rest\<close> Cons by simp
      have d: "distinct ?srcs" using wf by (simp add: source_nodes_def well_formed_def)
      have sub: "set ?srcs \<subseteq> set (nodes ?g0)" by (auto simp: source_nodes_def)
      have ends: "list_all (\<lambda>e. fst e \<in> set (nodes g) \<and> snd e \<in> set (nodes g)) (edges g)"
        using wf by (simp add: well_formed_def)
      have noedge: "\<forall>s \<in> set ?srcs. (?i, s) \<notin> set (edges g)"
        using ends fresh by (auto simp: list_all_iff)
      have g0: "add_node g ?i = ?g0" using fresh by (rule add_node_fresh)
      have g1: "add_invisible_edges ?g0 ?i ?srcs
          = ?g0\<lparr>edges := edges g @ map (\<lambda>s. (?i, s)) ?srcs\<rparr>"
        using add_invisible_edges_appends [OF d sub, of ?i] noedge by simp
      have g2: "remove_invisible_edges (?g0\<lparr>edges := edges g @ map (\<lambda>s. (?i, s)) ?srcs\<rparr>) ?i ?srcs
          = Inr (?g0\<lparr>edges := edges g\<rparr>)"
        using d noedge by (rule remove_invisible_edges_restores)
      have same: "?g0\<lparr>edges := edges g\<rparr> = ?g0"
        by simp
      have g3: "remove_node (?g0\<lparr>edges := edges g\<rparr>) ?i = Inr g"
        unfolding same using fresh ends by (rule remove_node_appended)
      have bfs: "\<exists>es. bfs_edges (?g0\<lparr>edges := edges g @ map (\<lambda>s. (?i, s)) ?srcs\<rparr>) ?i = Inr es"
        by (simp add: bfs_edges_def has_node_def)
      then obtain es where es: "bfs_edges (?g0\<lparr>edges := edges g @ map (\<lambda>s. (?i, s)) ?srcs\<rparr>) ?i = Inr es"
        by blast
      have "calc_exec_order g = Inr (map snd es, g)"
        unfolding calc_exec_order_def
        using dag srcs g0 g1 g2 g3 es by (simp add: Let_def)
      then show ?thesis by blast
    qed
  qed
qed

theorem calc_exec_order_leaves_graph_witness:
  "well_formed \<lparr>nodes = [Str ''a'', Str ''b'', Str ''c''],
                 edges = [(Str ''a'', Str ''c''), (Str ''b'', Str ''c'')]\<rparr>
   \<and> Integer 0 \<notin> set (nodes \<lparr>nodes = [Str ''a'', Str ''b'', Str ''c''],
                 edges = [(Str ''a'', Str ''c''), (Str ''b'', Str ''c'')]\<rparr>)
   \<and> (\<exists>exec_order.
         calc_exec_order \<lparr>nodes = [Str ''a'', Str ''b'', Str ''c''],
                 edges = [(Str ''a'', Str ''c''), (Str ''b'', Str ''c'')]\<rparr>
         = Inr (exec_order, \<lparr>nodes = [Str ''a'', Str ''b'', Str ''c''],
                 edges = [(Str ''a'', Str ''c''), (Str ''b'', Str ''c'')]\<rparr>))"
proof -
  let ?g = "\<lparr>nodes = [Str ''a'', Str ''b'', Str ''c''],
             edges = [(Str ''a'', Str ''c''), (Str ''b'', Str ''c'')]\<rparr>"
  have wf: "well_formed ?g"
    by (simp add: well_formed_def)
  have fresh: "Integer 0 \<notin> set (nodes ?g)"
    by simp
  show ?thesis
    using wf fresh calc_exec_order_leaves_graph [OF wf fresh] by simp
qed

text \<open>
  A graph with a directed cycle is not acyclic for \<open>is_directed_acyclic_graph\<close>: the
  nodes of the cycle all have an incoming edge from the cycle, so none of them is ever
  taken away.
\<close>

lemma cycle_not_feasible:
  "C \<noteq> {} \<Longrightarrow> C \<subseteq> set ns \<Longrightarrow> \<forall>v \<in> C. \<exists>u \<in> C. (u, v) \<in> set es \<Longrightarrow>
   \<not> topological_sort_feasible ns es"
proof (induction ns es rule: topological_sort_feasible.induct)
  case (1 ns es)
  show ?case
  proof (cases "filter (\<lambda>n. filter (\<lambda>e. snd e = n) es = []) ns")
    case Nil
    have "ns \<noteq> []" using "1.prems" by auto
    then show ?thesis
      using Nil by (subst topological_sort_feasible.simps) simp
  next
    case (Cons z zs)
    have "z \<in> set (filter (\<lambda>n. filter (\<lambda>e. snd e = n) es = []) ns)"
      using Cons by simp
    then have noin: "filter (\<lambda>e. snd e = z) es = []"
      by simp
    have zC: "z \<notin> C"
    proof
      assume "z \<in> C"
      then obtain u where "(u, z) \<in> set es" using "1.prems" by blast
      then have "(u, z) \<in> set (filter (\<lambda>e. snd e = z) es)" by simp
      then show False using noin by simp
    qed
    have sub: "C \<subseteq> set (removeAll z ns)"
      using "1.prems" zC by auto
    have cyc: "\<forall>v \<in> C. \<exists>u \<in> C. (u, v) \<in> set (filter (\<lambda>e. fst e \<noteq> z) es)"
      using "1.prems" zC by fastforce
    have "\<not> topological_sort_feasible (removeAll z ns) (filter (\<lambda>e. fst e \<noteq> z) es)"
      using "1.IH" [OF Cons "1.prems"(1) sub cyc] .
    then show ?thesis
      using Cons by (subst topological_sort_feasible.simps) simp
  qed
qed

lemma directed_cycle_not_acyclic:
  "C \<noteq> {} \<Longrightarrow> C \<subseteq> set (nodes g) \<Longrightarrow> \<forall>v \<in> C. \<exists>u \<in> C. (u, v) \<in> set (edges g) \<Longrightarrow>
   \<not> is_directed_acyclic_graph g"
  unfolding is_directed_acyclic_graph_def by (rule cycle_not_feasible)

lemma self_loop_not_acyclic:
  "n \<in> set (nodes g) \<Longrightarrow> (n, n) \<in> set (edges g) \<Longrightarrow> \<not> is_directed_acyclic_graph g"
  using directed_cycle_not_acyclic [of "{n}" g] by simp

text \<open>
  Claim C6, as amended. For every graph that is not acyclic, \<open>calc_exec_order\<close> returns
  without an error, and what it returns is the empty list; the graph is unchanged. No
  edge is reported.
\<close>

theorem calc_exec_order_not_a_dag:
  "\<not> is_directed_acyclic_graph g \<Longrightarrow> calc_exec_order g = Inr ([], g)"
  by (simp add: calc_exec_order_def)

theorem calc_exec_order_not_a_dag_witness:
  "calc_exec_order
     \<lparr>nodes = [Str ''A'', Str ''B'', Str ''C''],
      edges = [(Str ''A'', Str ''B''), (Str ''B'', Str ''C''), (Str ''C'', Str ''A'')]\<rparr>
   = Inr ([], \<lparr>nodes = [Str ''A'', Str ''B'', Str ''C''],
      edges = [(Str ''A'', Str ''B''), (Str ''B'', Str ''C''), (Str ''C'', Str ''A'')]\<rparr>)"
proof -
  let ?g = "\<lparr>nodes = [Str ''A'', Str ''B'', Str ''C''],
      edges = [(Str ''A'', Str ''B''), (Str ''B'', Str ''C''), (Str ''C'', Str ''A'')]\<rparr>"
  have "\<not> is_directed_acyclic_graph ?g"
    by code_simp
  then show ?thesis
    by (rule calc_exec_order_not_a_dag)
qed

text \<open>
  Claim C6 as stated fails: for the cycle \<open>A \<rightarrow> B \<rightarrow> C \<rightarrow> A\<close> all three edges take part in
  a cycle, and for the graph with the one self-loop \<open>A \<rightarrow> A\<close> that edge does, but in
  both cases the value returned is the empty list, which holds no edge and is the same
  for both graphs.
\<close>

theorem calc_exec_order_not_a_dag_counterexample:
  "\<not> is_directed_acyclic_graph
       \<lparr>nodes = [Str ''A'', Str ''B'', Str ''C''],
        edges = [(Str ''A'', Str ''B''), (Str ''B'', Str ''C''), (Str ''C'', Str ''A'')]\<rparr>
   \<and> edges_in_cycles
       \<lparr>nodes = [Str ''A'', Str ''B'', Str ''C''],
        edges = [(Str ''A'', Str ''B''), (Str ''B'', Str ''C''), (Str ''C'', Str ''A'')]\<rparr>
       = [(Str ''A'', Str ''B''), (Str ''B'', Str ''C''), (Str ''C'', Str ''A'')]
   \<and> calc_exec_order
       \<lparr>nodes = [Str ''A'', Str ''B'', Str ''C''],
        edges = [(Str ''A'', Str ''B''), (Str ''B'', Str ''C''), (Str ''C'', Str ''A'')]\<rparr>
       = Inr ([], \<lparr>nodes = [Str ''A'', Str ''B'', Str ''C''],
        edges = [(Str ''A'', Str ''B''), (Str ''B'', Str ''C''), (Str ''C'', Str ''A'')]\<rparr>)
   \<and> calc_exec_order \<lparr>nodes = [Str ''A''], edges = [(Str ''A'', Str ''A'')]\<rparr>
       = Inr ([], \<lparr>nodes = [Str ''A''], edges = [(Str ''A'', Str ''A'')]\<rparr>)
   \<and> edges_in_cycles \<lparr>nodes = [Str ''A''], edges = [(Str ''A'', Str ''A'')]\<rparr>
       = [(Str ''A'', Str ''A'')]"
  by code_simp

section \<open>The execution driver\<close>

text \<open>
  Claim C5. For every state of a run: on the code 0 the next item of the list becomes the
  running item and is executed, or, when the list is empty, the code 0 (finished) is
  emitted; on -1 the code -1 (failed) is emitted, on -2 the code -2 (stopped), and in both
  cases the execution list and the log of executed items stay as they were.
\<close>

theorem item_execution_finished_signals:
  "item_execution_finished s 0 =
     (case execution_list s of
        [] \<Rightarrow> s\<lparr>slot_connected := False,
                 graph_execution_finished := graph_execution_finished s @ [0]\<rparr>
      | item # rest \<Rightarrow>
          s\<lparr>execution_list := rest, running_item := Some item, slot_connected := True,
            executed := executed s @ [item]\<rparr>)
   \<and> item_execution_finished s (- 1) =
       s\<lparr>slot_connected := False,
         graph_execution_finished := graph_execution_finished s @ [- 1]\<rparr>
   \<and> item_execution_finished s (- 2) =
       s\<lparr>slot_connected := False,
         graph_execution_finished := graph_execution_finished s @ [- 2]\<rparr>"
  by (simp add: item_execution_finished_def emit_graph_execution_finished_def
      execute_project_item_def split: list.split)

text \<open>
  Claim C7, as amended. \<open>stop\<close> looks only at \<open>running_item\<close>. While it is unset
  (\<open>None\<close>, as it is until the first item is started, or an empty name), \<open>stop\<close> sends
  the message \<open>No running item\<close> and emits the code -2 on the signal that ends the run;
  the other fields stay as they were.
\<close>

theorem stop_without_running_item:
  "running_item s = None \<or> running_item s = Some [] \<Longrightarrow>
   stop s = s\<lparr>msgs := msgs s @ [''No running item''],
             graph_execution_finished := graph_execution_finished s @ [- 2]\<rparr>"
  by (auto simp: stop_def emit_graph_execution_finished_def)

theorem stop_without_running_item_witness:
  "stop (ExecutionInstance_init [''a'', ''b'']) =
     (ExecutionInstance_init [''a'', ''b''])
       \<lparr>msgs := [''No running item''], graph_execution_finished := [- 2]\<rparr>"
  using stop_without_running_item [of "ExecutionInstance_init [''a'', ''b'']"]
  by (simp add: ExecutionInstance_init_def)

text \<open>
  Claim C7 as stated fails: on a fresh instance, where nothing runs and nothing was
  emitted, \<open>stop\<close> emits the code -2.
\<close>

theorem stop_without_running_item_counterexample:
  "running_item (ExecutionInstance_init [''a'']) = None
   \<and> graph_execution_finished (ExecutionInstance_init [''a'']) = []
   \<and> graph_execution_finished (stop (ExecutionInstance_init [''a''])) = [- 2]"
  by (simp add: stop_def ExecutionInstance_init_def emit_graph_execution_finished_def)

text \<open>
  When \<open>running_item\<close> is set, \<open>stop\<close> calls \<open>stop_execution()\<close> of that item and neither
  sends a message nor emits a code. No function resets \<open>running_item\<close>: after a run of
  the one item \<open>a\<close> has finished with the code 0, \<open>a\<close> is still the running item and
  \<open>stop\<close> is passed on to it.
\<close>

lemma stop_with_running_item:
  "running_item s = Some item \<Longrightarrow> item \<noteq> [] \<Longrightarrow>
   stop s = s\<lparr>stop_requests := stop_requests s @ [item]\<rparr>"
  by (simp add: stop_def)

lemma stop_after_run_end:
  "start_execution (ExecutionInstance_init [''a''])
     = Inr ((ExecutionInstance_init [''a''])
             \<lparr>execution_list := [], running_item := Some ''a'', slot_connected := True,
               executed := [''a'']\<rparr>)
   \<and> item_execution_finished
        ((ExecutionInstance_init [''a''])
          \<lparr>execution_list := [], running_item := Some ''a'', slot_connected := True,
            executed := [''a'']\<rparr>) 0
     = (ExecutionInstance_init [''a''])
         \<lparr>execution_list := [], running_item := Some ''a'', slot_connected := False,
           executed := [''a''], graph_execution_finished := [0]\<rparr>
   \<and> stop ((ExecutionInstance_init [''a''])
         \<lparr>execution_list := [], running_item := Some ''a'', slot_connected := False,
           executed := [''a''], graph_execution_finished := [0]\<rparr>)
     = (ExecutionInstance_init [''a''])
         \<lparr>execution_list := [], running_item := Some ''a'', slot_connected := False,
           executed := [''a''], graph_execution_finished := [0], stop_requests := [''a'']\<rparr>"
  by (simp add: start_execution_def item_execution_finished_def stop_def
      execute_project_item_def emit_graph_execution_finished_def ExecutionInstance_init_def)

text \<open>
  Claim C10. \<open>start_execution\<close> raises \<open>IndexError\<close> exactly when the execution list is
  empty, and returns exactly when it is not; it then runs the first item and keeps the
  rest. \<open>item_execution_finished\<close> cannot raise: on an empty list it emits the code 0.
\<close>

theorem start_execution_needs_items:
  "(start_execution s = Inl IndexError) = (execution_list s = [])
   \<and> ((\<exists>s'. start_execution s = Inr s') = (execution_list s \<noteq> []))
   \<and> (\<forall>item rest. execution_list s = item # rest \<longrightarrow>
         start_execution s =
           Inr (s\<lparr>execution_list := rest, running_item := Some item, slot_connected := True,
                 executed := executed s @ [item]\<rparr>))
   \<and> (execution_list s = [] \<longrightarrow>
         item_execution_finished s 0 =
           s\<lparr>slot_connected := False,
             graph_execution_finished := graph_execution_finished s @ [0]\<rparr>)"
  by (auto simp: start_execution_def item_execution_finished_def
      emit_graph_execution_finished_def execute_project_item_def split: list.splits)

theorem start_execution_needs_items_witness:
  "start_execution (ExecutionInstance_init []) = Inl IndexError
   \<and> start_execution (ExecutionInstance_init [''a'', ''b'']) =
       Inr ((ExecutionInstance_init [''a'', ''b''])
              \<lparr>execution_list := [''b''], running_item := Some ''a'', slot_connected := True,
                executed := [''a'']\<rparr>)
   \<and> item_execution_finished (ExecutionInstance_init []) 0 =
       (ExecutionInstance_init [])\<lparr>slot_connected := False, graph_execution_finished := [0]\<rparr>"
  using start_execution_needs_items [of "ExecutionInstance_init []"]
    start_execution_needs_items [of "ExecutionInstance_init [''a'', ''b'']"]
  by (simp add: ExecutionInstance_init_def)

section \<open>Finding resources\<close>

lemma first_named_find: "first_named filename refs = List.find (\<lambda>r. path_tail r = filename) refs"
  by (induction refs) auto

lemma first_some_find_append:
  "first_some (List.find p xs # rs) =
     (case List.find p xs of None \<Rightarrow> first_some rs | Some r \<Rightarrow> Some r)"
  by (cases "List.find p xs") auto

lemma find_append_case:
  "List.find p (xs @ ys) = (case List.find p xs of None \<Rightarrow> List.find p ys | Some r \<Rightarrow> Some r)"
  by (induction xs) auto

lemma find_file_find:
  "find_file s filename =
     List.find (\<lambda>r. path_tail r = filename)
       (refs_of_dialect s ''sqlite'' @ refs_of_dialect s ''mysql'' @ refs_of_dialect s ''mssql''
        @ refs_of_dialect s ''postgresql'' @ refs_of_dialect s ''oracle''
        @ dc_refs s @ dc_files s @ tool_output_files s)"
  by (simp add: find_file_def first_named_find first_some_find_append find_append_case
      split: option.split)

text \<open>
  Claim C8, as amended. For a pattern that contains \<open>*\<close> or \<open>?\<close>, \<open>find_optional_files\<close>
  returns the entries that the matcher accepts for the pattern among the sqlite
  references, the data connection references, the data connection files and the tool
  output files, in this order; references of the other dialects are not searched. For
  any other pattern it returns the result of \<open>find_file\<close>: the first entry, over the
  references of the five dialects, the data connection references and files and the tool
  output files, whose file name is the pattern, or nothing. This holds for every matcher.
\<close>

theorem find_optional_files_searches:
  "find_optional_files matches s pattern =
     (if CHR ''*'' \<in> set pattern \<or> CHR ''?'' \<in> set pattern then
        filter (\<lambda>name. matches name pattern)
          (refs_of_dialect s ''sqlite'' @ dc_refs s @ dc_files s @ tool_output_files s)
      else
        (case List.find (\<lambda>r. path_tail r = pattern)
                (refs_of_dialect s ''sqlite'' @ refs_of_dialect s ''mysql''
                 @ refs_of_dialect s ''mssql'' @ refs_of_dialect s ''postgresql''
                 @ refs_of_dialect s ''oracle''
                 @ dc_refs s @ dc_files s @ tool_output_files s) of
           None \<Rightarrow> []
         | Some match \<Rightarrow> [match]))"
  by (simp add: find_optional_files_def fnmatch_filter_def find_file_find)

text \<open>
  Claim C8 as stated fails. The pattern \<open>*\<close> matches every name. With a matcher that
  accepts every name for the pattern \<open>*\<close>, a mysql reference held by the instance is
  accepted and is not returned.
\<close>

theorem find_optional_files_counterexample:
  "ds_refs (add_ds_ref (ExecutionInstance_init []) ''mysql'' ''mysql://host/db'') ''mysql''
     = Some [''mysql://host/db'']
   \<and> (\<lambda>name pat. pat = ''*'') ''mysql://host/db'' ''*''
   \<and> find_optional_files (\<lambda>name pat. pat = ''*'')
        (add_ds_ref (ExecutionInstance_init []) ''mysql'' ''mysql://host/db'') ''*'' = []"
  by (simp add: find_optional_files_def fnmatch_filter_def add_ds_ref_def
      ExecutionInstance_init_def refs_of_dialect_def)

end
